theory Spec2Isabelle
  imports Main "HOL-Library.AList" "HOL-Library.Sublist"
begin

section \<open>The synthesized resolver routine\<close>

text \<open>
  The pass injects one function into every unit that has a provider statement
  (the template of \<^verbatim>\<open>getSymbolBuilder\<close> in \<^verbatim>\<open>src/plugin.js\<close>):
  \<^verbatim>\<open>
  function GET_SYMBOL( targetSymName, ...symbolSets ) {
    let symbol;
    symbolSets.forEach( symbolSet=>{
      if( typeof symbolSet[targetSymName] === 'symbol' ) {
        if( !! symbol ) { throw new Error(`Symbol ${targetSymName} offered by multiple symbol sets.`); }
        symbol = symbolSet[targetSymName];
      }
    });
    if( ! symbol ) { throw new Error(`No symbol set is providing symbol ${targetSymName}.`); }
    return symbol;
  }
  \<close>
  Runtime values are a datatype with one constructor per JavaScript kind. A provider value
  is an object; the routine only reads the property \<open>targetSymName\<close> of it, so an object
  is modelled by its property read: a function from property names to values, giving
  \<open>JUndefined\<close> for an absent property.
\<close>

datatype jsval =
    JUndefined
  | JNull
  | JBoolean bool
  | JNumber int
  | JString string
  | JSymbol nat
  | JObject nat

type_synonym symbolSet = "string \<Rightarrow> jsval"

datatype rt_error = Error string

fun typeof :: "jsval \<Rightarrow> string" where
  "typeof JUndefined = ''undefined''"
| "typeof JNull = ''object''"
| "typeof (JBoolean b) = ''boolean''"
| "typeof (JNumber n) = ''number''"
| "typeof (JString s) = ''string''"
| "typeof (JSymbol k) = ''symbol''"
| "typeof (JObject a) = ''object''"

text \<open>JavaScript's \<^verbatim>\<open>!! v\<close>: the truthiness of a value.\<close>

fun truthy :: "jsval \<Rightarrow> bool" where
  "truthy JUndefined = False"
| "truthy JNull = False"
| "truthy (JBoolean b) = b"
| "truthy (JNumber n) = (n \<noteq> 0)"
| "truthy (JString s) = (s \<noteq> [])"
| "truthy (JSymbol k) = True"
| "truthy (JObject a) = True"

definition multipleMessage :: "string \<Rightarrow> string" where
  "multipleMessage targetSymName = ''Symbol '' @ targetSymName @ '' offered by multiple symbol sets.''"

definition noneMessage :: "string \<Rightarrow> string" where
  "noneMessage targetSymName = ''No symbol set is providing symbol '' @ targetSymName @ ''.''"

text \<open>
  The \<^verbatim>\<open>forEach\<close> loop, with the variable \<^verbatim>\<open>symbol\<close> as an accumulator. A throw
  inside the callback leaves the loop at once.
\<close>

fun forEach_symbolSets :: "string \<Rightarrow> symbolSet list \<Rightarrow> jsval \<Rightarrow> rt_error + jsval" where
  "forEach_symbolSets targetSymName [] symbol = Inr symbol"
| "forEach_symbolSets targetSymName (symbolSet # rest) symbol =
     (if typeof (symbolSet targetSymName) = ''symbol'' then
        (if truthy symbol then Inl (Error (multipleMessage targetSymName))
         else forEach_symbolSets targetSymName rest (symbolSet targetSymName))
      else forEach_symbolSets targetSymName rest symbol)"

definition GET_SYMBOL :: "string \<Rightarrow> symbolSet list \<Rightarrow> rt_error + jsval" where
  "GET_SYMBOL targetSymName symbolSets =
     (case forEach_symbolSets targetSymName symbolSets JUndefined of
        Inl e \<Rightarrow> Inl e
      | Inr symbol \<Rightarrow>
          if \<not> truthy symbol then Inl (Error (noneMessage targetSymName)) else Inr symbol)"

text \<open>The providers that are candidates for a name, in scan order.\<close>

definition candidates :: "string \<Rightarrow> symbolSet list \<Rightarrow> symbolSet list" where
  "candidates targetSymName symbolSets =
     filter (\<lambda>symbolSet. typeof (symbolSet targetSymName) = ''symbol'') symbolSets"

lemma typeof_symbol_truthy: "typeof v = ''symbol'' \<Longrightarrow> truthy v"
  by (cases v) simp_all

lemma forEach_no_candidate:
  "candidates n ss = [] \<Longrightarrow> forEach_symbolSets n ss acc = Inr acc"
  by (induction ss arbitrary: acc) (auto simp: candidates_def split: if_splits)

lemma forEach_candidate_after_symbol:
  "truthy acc \<Longrightarrow> candidates n ss \<noteq> [] \<Longrightarrow>
   forEach_symbolSets n ss acc = Inl (Error (multipleMessage n))"
  by (induction ss arbitrary: acc) (auto simp: candidates_def split: if_splits)

lemma forEach_first_candidate:
  "\<not> truthy acc \<Longrightarrow> candidates n ss = c # cs \<Longrightarrow>
   forEach_symbolSets n ss acc =
     (if cs = [] then Inr (c n) else Inl (Error (multipleMessage n)))"
proof (induction ss arbitrary: acc)
  case Nil
  then show ?case by (simp add: candidates_def)
next
  case (Cons s ss)
  show ?case
  proof (cases "typeof (s n) = ''symbol''")
    case True
    with Cons.prems have c: "c = s" and cs: "candidates n ss = cs"
      by (simp_all add: candidates_def)
    have t: "truthy (s n)" using True by (rule typeof_symbol_truthy)
    show ?thesis
    proof (cases "cs = []")
      case True
      with cs have "forEach_symbolSets n ss (s n) = Inr (s n)"
        by (simp add: forEach_no_candidate)
      with \<open>typeof (s n) = ''symbol''\<close> Cons.prems(1) c True show ?thesis by simp
    next
      case False
      with cs t have "forEach_symbolSets n ss (s n) = Inl (Error (multipleMessage n))"
        by (simp add: forEach_candidate_after_symbol)
      with \<open>typeof (s n) = ''symbol''\<close> Cons.prems(1) False show ?thesis by simp
    qed
  next
    case False
    with Cons.prems have "candidates n ss = c # cs" by (simp add: candidates_def)
    with Cons.IH [OF Cons.prems(1)] False show ?thesis by simp
  qed
qed

text \<open>
  C2. For a trait name and an ordered list of provider objects: with more than one
  provider carrying a symbol at that name the call fails with the "multiple providers"
  error; with none it fails with the "no provider" error; with exactly one it returns
  that provider's symbol.
\<close>

theorem GET_SYMBOL_resolves:
  "(1 < length (candidates n ss) \<longrightarrow> GET_SYMBOL n ss = Inl (Error (multipleMessage n))) \<and>
   (candidates n ss = [] \<longrightarrow> GET_SYMBOL n ss = Inl (Error (noneMessage n))) \<and>
   (length (candidates n ss) = 1 \<longrightarrow>
      GET_SYMBOL n ss = Inr (hd (candidates n ss) n) \<and>
      typeof (hd (candidates n ss) n) = ''symbol'')"
proof (cases "candidates n ss")
  case Nil
  then show ?thesis by (simp add: GET_SYMBOL_def forEach_no_candidate)
next
  case (Cons c cs)
  have nt: "\<not> truthy JUndefined" by simp
  have "c \<in> set (candidates n ss)" using Cons by simp
  then have csym: "typeof (c n) = ''symbol''" by (simp add: candidates_def)
  then have "truthy (c n)" by (rule typeof_symbol_truthy)
  with forEach_first_candidate [OF nt Cons] Cons csym show ?thesis
    by (cases cs) (simp_all add: GET_SYMBOL_def)
qed

definition symbols1 :: symbolSet where
  "symbols1 k = (if k = ''one'' then JSymbol 1 else JUndefined)"

definition symbols2 :: symbolSet where
  "symbols2 k = (if k = ''two'' then JSymbol 2 else JUndefined)"

theorem GET_SYMBOL_resolves_witness:
  "GET_SYMBOL ''one'' [symbols1, symbols2] = Inr (JSymbol 1) \<and>
   GET_SYMBOL ''one'' [symbols1, symbols2, symbols1] = Inl (Error (multipleMessage ''one'')) \<and>
   GET_SYMBOL ''one'' [symbols2] = Inl (Error (noneMessage ''one''))"
  using GET_SYMBOL_resolves [of "''one''" "[symbols1, symbols2]"]
    GET_SYMBOL_resolves [of "''one''" "[symbols1, symbols2, symbols1]"]
    GET_SYMBOL_resolves [of "''one''" "[symbols2]"]
  by (simp add: candidates_def symbols1_def symbols2_def)

section \<open>The syntax tree\<close>

text \<open>
  The pass works on a Babel 6 syntax tree. A node is a value of one datatype, with one
  constructor per node type the pass looks at or builds, and \<open>Other\<close> for every other
  type (its children in the order the traversal visits them).
  \<^item> A member expression is \<open>MemberExpression obj name\<close> when \<^verbatim>\<open>computed\<close> is false
    (\<^verbatim>\<open>obj.name\<close>, the property being an identifier) and
    \<open>ComputedMemberExpression obj prop\<close> when it is true (\<^verbatim>\<open>obj[prop]\<close>).
  \<^item> The label of a labeled statement is an identifier; the node holds its name.
  \<^item> The pass keeps \<^verbatim>\<open>NodePath\<close> objects of blocks and of labeled statements in a map
    and in sets, compared by object identity. The nodes of these two types carry that
    identity as a number (first argument); in a tree from the parser the numbers of two
    different nodes differ. The path of a block is the chain of the identities of the
    blocks around it, the block itself first and the program (the empty chain) last:
    \<^verbatim>\<open>parentPath\<close> of the block, other node types left out, is the tail of the chain.
  \<^item> \<open>GetSymbolFunction g\<close> is the function declaration the template of the pass
    builds, \<open>g\<close> the name put for \<^verbatim>\<open>GET_SYMBOL\<close>. The rest of it is fixed: its other
    identifiers are listed by \<open>template_identifiers\<close> below, and its string literal
    \<^verbatim>\<open>'symbol'\<close> and the texts of its two template literals hold no placeholder
    spelling, so that the literal patcher leaves them as they are.
  \<^item> Directives of blocks and of the program hold no identifier and no string literal
    node, and are left out.
\<close>

datatype node =
    Identifier string
  | StringLiteral string
  | TemplateElement string string bool
  | MemberExpression node string
  | ComputedMemberExpression node node
  | CallExpression node "node list"
  | ExpressionStatement node
  | LabeledStatement nat string node
  | BlockStatement nat "node list"
  | VariableDeclaration string "node list"
  | VariableDeclarator node node
  | GetSymbolFunction string
  | Other string "node list"

datatype program = Program "node list"

datatype error = AssertionError string | CodeFrameError string

definition straits :: string where
  "straits = ''_Straits''"

definition straitsProvider :: string where
  "straitsProvider = ''_StraitsProvider''"

definition not_in_block :: error where
  "not_in_block = AssertionError ''use traits * from must be placed in a block, or in the outermost scope.''"

definition requires_expression :: error where
  "requires_expression = CodeFrameError ''use traits * from requires an expression.''"

definition used_without_traits :: error where
  "used_without_traits = CodeFrameError ''.* used, without using any traits.''"

definition malformed_access :: error where
  "malformed_access = AssertionError []"

subsection \<open>Namespaces\<close>

text \<open>
  \<^verbatim>\<open>class TraitNamespace\<close>: \<open>path\<close> is the first provider statement found in the
  block (its identity), \<open>blockPath\<close> the path of the block, \<open>providers\<close> a JavaScript
  \<^verbatim>\<open>Set\<close> of provider statements (a list without repetition, in insertion order) and
  \<open>symbols\<close> a \<^verbatim>\<open>Map\<close> from trait names to generated names (an association list in
  insertion order). \<^verbatim>\<open>traitNamespaces\<close> is a \<^verbatim>\<open>Map\<close> from block paths to namespaces.
\<close>

record TraitNamespace =
  path :: nat
  blockPath :: "nat list"
  providers :: "nat list"
  symbols :: "(string \<times> string) list"

type_synonym traitNamespaces = "(nat list \<times> TraitNamespace) list"

definition has :: "('k \<times> 'v) list \<Rightarrow> 'k \<Rightarrow> bool" where
  "has m k = (map_of m k \<noteq> None)"

definition set_add :: "'a list \<Rightarrow> 'a \<Rightarrow> 'a list" where
  "set_add xs x = (if x \<in> set xs then xs else xs @ [x])"

text \<open>
  \<^verbatim>\<open>p.node.body.expression\<close> for the provider statement \<open>p\<close>: the statement is found in
  the tree by its identity; the body has an \<^verbatim>\<open>expression\<close> when it is an expression
  statement.
\<close>

fun find_labeled :: "nat \<Rightarrow> node \<Rightarrow> node option"
  and find_labeled_list :: "nat \<Rightarrow> node list \<Rightarrow> node option" where
  "find_labeled p (Identifier n) = None"
| "find_labeled p (StringLiteral v) = None"
| "find_labeled p (TemplateElement r c t) = None"
| "find_labeled p (MemberExpression obj n) = find_labeled p obj"
| "find_labeled p (ComputedMemberExpression obj prop) =
     (case find_labeled p obj of Some b \<Rightarrow> Some b | None \<Rightarrow> find_labeled p prop)"
| "find_labeled p (CallExpression callee args) =
     (case find_labeled p callee of Some b \<Rightarrow> Some b | None \<Rightarrow> find_labeled_list p args)"
| "find_labeled p (ExpressionStatement e) = find_labeled p e"
| "find_labeled p (LabeledStatement tag label body) =
     (if tag = p then Some body else find_labeled p body)"
| "find_labeled p (BlockStatement tag body) = find_labeled_list p body"
| "find_labeled p (VariableDeclaration kind ds) = find_labeled_list p ds"
| "find_labeled p (VariableDeclarator i init) =
     (case find_labeled p i of Some b \<Rightarrow> Some b | None \<Rightarrow> find_labeled p init)"
| "find_labeled p (GetSymbolFunction g) = None"
| "find_labeled p (Other ty children) = find_labeled_list p children"
| "find_labeled_list p [] = None"
| "find_labeled_list p (x # xs) =
     (case find_labeled p x of Some b \<Rightarrow> Some b | None \<Rightarrow> find_labeled_list p xs)"

fun body_of :: "program \<Rightarrow> node list" where
  "body_of (Program body) = body"

definition provider_expression :: "program \<Rightarrow> nat \<Rightarrow> node option" where
  "provider_expression prog p =
     (case find_labeled_list p (body_of prog) of
        Some (ExpressionStatement e) \<Rightarrow> Some e
      | _ \<Rightarrow> None)"

text \<open>
  \<^verbatim>\<open>addProvider( path )\<close>: the statement joins the set, then the method throws when the
  statement has no expression.
\<close>

definition addProvider :: "program \<Rightarrow> TraitNamespace \<Rightarrow> nat \<Rightarrow> error + TraitNamespace" where
  "addProvider prog ns p =
     (let ns' = ns\<lparr>providers := set_add (providers ns) p\<rparr>
      in if provider_expression prog p = None then Inl requires_expression else Inr ns')"

text \<open>
  \<^verbatim>\<open>new TraitNamespace( path )\<close>; its two assertions hold wherever the visitor calls it
  (the visitor has made the second one itself, on a labeled statement).
\<close>

definition new_TraitNamespace :: "program \<Rightarrow> nat list \<Rightarrow> nat \<Rightarrow> error + TraitNamespace" where
  "new_TraitNamespace prog block p =
     addProvider prog \<lparr>path = p, blockPath = block, providers = [], symbols = []\<rparr> p"

text \<open>
  The body of the \<^verbatim>\<open>LabeledStatement\<close> visitor of step 1 for a provider statement in a
  block: \<^verbatim>\<open>defaultGet\<close> on the map, then \<^verbatim>\<open>addProvider\<close>.
\<close>

definition register :: "program \<Rightarrow> traitNamespaces \<Rightarrow> nat list \<Rightarrow> nat \<Rightarrow> error + traitNamespaces" where
  "register prog reg block p =
     (case (case map_of reg block of
              Some ns \<Rightarrow> Inr ns
            | None \<Rightarrow> new_TraitNamespace prog block p) of
        Inl e \<Rightarrow> Inl e
      | Inr ns \<Rightarrow>
          (case addProvider prog ns p of
             Inl e \<Rightarrow> Inl e
           | Inr ns' \<Rightarrow> Inr (AList.update block ns' reg)))"

text \<open>
  Step 1, \<^verbatim>\<open>path.traverse({ LabeledStatement(path) {...} })\<close>: every node is visited,
  parents before children, children in order. \<open>chain\<close> is the path of the nearest block
  around the node, \<open>inBlock\<close> says that the parent of the node is a block or the program.
\<close>

fun collect :: "program \<Rightarrow> nat list \<Rightarrow> bool \<Rightarrow> node \<Rightarrow> traitNamespaces \<Rightarrow> error + traitNamespaces"
  and collect_list :: "program \<Rightarrow> nat list \<Rightarrow> bool \<Rightarrow> node list \<Rightarrow> traitNamespaces \<Rightarrow> error + traitNamespaces" where
  "collect prog chain inBlock (Identifier n) reg = Inr reg"
| "collect prog chain inBlock (StringLiteral v) reg = Inr reg"
| "collect prog chain inBlock (TemplateElement r c t) reg = Inr reg"
| "collect prog chain inBlock (MemberExpression obj n) reg = collect prog chain False obj reg"
| "collect prog chain inBlock (ComputedMemberExpression obj prop) reg =
     (case collect prog chain False obj reg of
        Inl e \<Rightarrow> Inl e
      | Inr reg' \<Rightarrow> collect prog chain False prop reg')"
| "collect prog chain inBlock (CallExpression callee args) reg =
     (case collect prog chain False callee reg of
        Inl e \<Rightarrow> Inl e
      | Inr reg' \<Rightarrow> collect_list prog chain False args reg')"
| "collect prog chain inBlock (ExpressionStatement e) reg = collect prog chain False e reg"
| "collect prog chain inBlock (LabeledStatement tag label body) reg =
     (if label \<noteq> straitsProvider then collect prog chain False body reg
      else if \<not> inBlock then Inl not_in_block
      else (case register prog reg chain tag of
              Inl e \<Rightarrow> Inl e
            | Inr reg' \<Rightarrow> collect prog chain False body reg'))"
| "collect prog chain inBlock (BlockStatement tag body) reg =
     collect_list prog (tag # chain) True body reg"
| "collect prog chain inBlock (VariableDeclaration kind ds) reg =
     collect_list prog chain False ds reg"
| "collect prog chain inBlock (VariableDeclarator i init) reg =
     (case collect prog chain False i reg of
        Inl e \<Rightarrow> Inl e
      | Inr reg' \<Rightarrow> collect prog chain False init reg')"
| "collect prog chain inBlock (GetSymbolFunction g) reg = Inr reg"
| "collect prog chain inBlock (Other ty children) reg =
     collect_list prog chain False children reg"
| "collect_list prog chain inBlock [] reg = Inr reg"
| "collect_list prog chain inBlock (x # xs) reg =
     (case collect prog chain inBlock x reg of
        Inl e \<Rightarrow> Inl e
      | Inr reg' \<Rightarrow> collect_list prog chain inBlock xs reg')"

definition collect_program :: "program \<Rightarrow> error + traitNamespaces" where
  "collect_program prog = collect_list prog [] True (body_of prog) []"

subsection \<open>Step 2: inheritance\<close>

text \<open>
  \<^verbatim>\<open>
  for( const [blockPath, traitNS] of traitNamespaces ) {
    let parentPath = blockPath.parentPath;
    while( parentPath ) {
      if( traitNamespaces.has(parentPath) ) {
        traitNamespaces.get(parentPath).providers.forEach( p=>{ traitNS.addProvider( p ); });
      }
      parentPath = parentPath.parentPath;
    }
  }
  \<close>
  \<open>parentPaths\<close> lists the values \<^verbatim>\<open>parentPath\<close> takes in the loop, those that can be
  keys of the map: the paths of the blocks around the block, the nearest first, the
  program last.
\<close>

fun parentPaths :: "nat list \<Rightarrow> nat list list" where
  "parentPaths [] = []"
| "parentPaths (b # rest) = rest # parentPaths rest"

fun addProviders :: "program \<Rightarrow> TraitNamespace \<Rightarrow> nat list \<Rightarrow> error + TraitNamespace" where
  "addProviders prog ns [] = Inr ns"
| "addProviders prog ns (p # ps) =
     (case addProvider prog ns p of
        Inl e \<Rightarrow> Inl e
      | Inr ns' \<Rightarrow> addProviders prog ns' ps)"

fun inherit_from :: "program \<Rightarrow> traitNamespaces \<Rightarrow> TraitNamespace \<Rightarrow> nat list list \<Rightarrow> error + TraitNamespace" where
  "inherit_from prog reg ns [] = Inr ns"
| "inherit_from prog reg ns (parentPath # rest) =
     (case map_of reg parentPath of
        None \<Rightarrow> inherit_from prog reg ns rest
      | Some parent \<Rightarrow>
          (case addProviders prog ns (providers parent) of
             Inl e \<Rightarrow> Inl e
           | Inr ns' \<Rightarrow> inherit_from prog reg ns' rest))"

fun inherit_all :: "program \<Rightarrow> traitNamespaces \<Rightarrow> nat list list \<Rightarrow> error + traitNamespaces" where
  "inherit_all prog reg [] = Inr reg"
| "inherit_all prog reg (block # blocks) =
     (case map_of reg block of
        None \<Rightarrow> inherit_all prog reg blocks
      | Some ns \<Rightarrow>
          (case inherit_from prog reg ns (parentPaths block) of
             Inl e \<Rightarrow> Inl e
           | Inr ns' \<Rightarrow> inherit_all prog (AList.update block ns' reg) blocks))"

definition inherit :: "program \<Rightarrow> traitNamespaces \<Rightarrow> error + traitNamespaces" where
  "inherit prog reg = inherit_all prog reg (map fst reg)"

subsection \<open>Step 3: rewriting the trait accesses\<close>

text \<open>
  The name generator \<^verbatim>\<open>scope.generateUidIdentifier\<close> belongs to Babel. It is a parameter
  of the model: a function of the block whose scope is asked, of the names generated so
  far in the unit, and of the name asked for.
\<close>

type_synonym uidgen = "nat list \<Rightarrow> string list \<Rightarrow> string \<Rightarrow> string"

text \<open>\<^verbatim>\<open>provideSymbol( symName )\<close>; the state is the namespace and the names generated so far.\<close>

definition provideSymbol :: "uidgen \<Rightarrow> TraitNamespace \<times> string list \<Rightarrow> string \<Rightarrow> string \<times> TraitNamespace \<times> string list" where
  "provideSymbol gen st symName =
     (case st of (ns, uids) \<Rightarrow>
        (case map_of (symbols ns) symName of
           Some newSymbolIdentifier \<Rightarrow> (newSymbolIdentifier, ns, uids)
         | None \<Rightarrow>
             (let newSymbolIdentifier = gen (blockPath ns) uids symName
              in (newSymbolIdentifier,
                  ns\<lparr>symbols := symbols ns @ [(symName, newSymbolIdentifier)]\<rparr>,
                  uids @ [newSymbolIdentifier]))))"

text \<open>
  \<open>marker_object n\<close> is \<open>Some obj\<close> when \<open>n\<close> is the node \<^verbatim>\<open>obj._Straits\<close>, the member
  expression whose property is the placeholder identifier.
\<close>

fun marker_object :: "node \<Rightarrow> node option" where
  "marker_object (MemberExpression obj m) = (if m = straits then Some obj else None)"
| "marker_object n = None"

lemma marker_object_size [termination_simp]:
  "marker_object n = Some obj \<Longrightarrow> size obj < size n"
  by (cases n) (auto split: if_splits)

text \<open>
  The traversal of step 3 inside the block of one namespace, as the result of the two
  visitors on each node:
  \<^item> a block that has a namespace of its own is skipped;
  \<^item> the \<^verbatim>\<open>Identifier\<close> visitor acts on an identifier named \<^verbatim>\<open>_Straits\<close>. Its three
    first assertions hold when the identifier is the property of a member expression
    that is not computed (\<^verbatim>\<open>parentPath\<close>), and the two next ones when that expression
    is the object of a member expression (\<^verbatim>\<open>symbolPath\<close>). The object of \<^verbatim>\<open>parentPath\<close>
    has been traversed before, since a traversal visits the object of a member
    expression before its property. When \<^verbatim>\<open>symbolPath\<close> is computed, \<^verbatim>\<open>parentPath\<close>
    is replaced by its object and the traversal goes on to the property of
    \<^verbatim>\<open>symbolPath\<close>. Otherwise \<^verbatim>\<open>symbolPath\<close> is replaced by a computed access through
    the generated identifier;
  \<^item> Babel visits a replacement again. The replacement's object has been rewritten
    and holds no placeholder. The generated identifier is visited, and fails the
    second assertion when the generator made the name \<^verbatim>\<open>_Straits\<close>; so does the old
    property of \<^verbatim>\<open>symbolPath\<close>, which the traversal still visits, when the trait name is
    \<^verbatim>\<open>_Straits\<close> itself;
  \<^item> an identifier named \<^verbatim>\<open>_Straits\<close> anywhere else fails an assertion.
\<close>

fun rewrite :: "uidgen \<Rightarrow> traitNamespaces \<Rightarrow> nat list \<Rightarrow> node \<Rightarrow> TraitNamespace \<times> string list \<Rightarrow>
      error + node \<times> TraitNamespace \<times> string list"
  and rewrite_list :: "uidgen \<Rightarrow> traitNamespaces \<Rightarrow> nat list \<Rightarrow> node list \<Rightarrow> TraitNamespace \<times> string list \<Rightarrow>
      error + node list \<times> TraitNamespace \<times> string list" where
  "rewrite gen reg chain (Identifier n) st =
     (if n = straits then Inl malformed_access else Inr (Identifier n, st))"
| "rewrite gen reg chain (StringLiteral v) st = Inr (StringLiteral v, st)"
| "rewrite gen reg chain (TemplateElement r c t) st = Inr (TemplateElement r c t, st)"
| "rewrite gen reg chain (MemberExpression obj name) st =
     (case marker_object obj of
        Some obj0 \<Rightarrow>
          (case rewrite gen reg chain obj0 st of
             Inl e \<Rightarrow> Inl e
           | Inr (obj0', st') \<Rightarrow>
               if name = straits then Inl malformed_access
               else (case provideSymbol gen st' name of
                       (newSymbolIdentifier, st'') \<Rightarrow>
                         if newSymbolIdentifier = straits then Inl malformed_access
                         else Inr (ComputedMemberExpression obj0' (Identifier newSymbolIdentifier), st'')))
      | None \<Rightarrow>
          (case rewrite gen reg chain obj st of
             Inl e \<Rightarrow> Inl e
           | Inr (obj', st') \<Rightarrow>
               if name = straits then Inl malformed_access
               else Inr (MemberExpression obj' name, st')))"
| "rewrite gen reg chain (ComputedMemberExpression obj prop) st =
     (case marker_object obj of
        Some obj0 \<Rightarrow>
          (case rewrite gen reg chain obj0 st of
             Inl e \<Rightarrow> Inl e
           | Inr (obj0', st') \<Rightarrow>
               (case rewrite gen reg chain prop st' of
                  Inl e \<Rightarrow> Inl e
                | Inr (prop', st'') \<Rightarrow> Inr (ComputedMemberExpression obj0' prop', st'')))
      | None \<Rightarrow>
          (case rewrite gen reg chain obj st of
             Inl e \<Rightarrow> Inl e
           | Inr (obj', st') \<Rightarrow>
               (case rewrite gen reg chain prop st' of
                  Inl e \<Rightarrow> Inl e
                | Inr (prop', st'') \<Rightarrow> Inr (ComputedMemberExpression obj' prop', st''))))"
| "rewrite gen reg chain (CallExpression callee args) st =
     (case rewrite gen reg chain callee st of
        Inl e \<Rightarrow> Inl e
      | Inr (callee', st') \<Rightarrow>
          (case rewrite_list gen reg chain args st' of
             Inl e \<Rightarrow> Inl e
           | Inr (args', st'') \<Rightarrow> Inr (CallExpression callee' args', st'')))"
| "rewrite gen reg chain (ExpressionStatement e) st =
     (case rewrite gen reg chain e st of
        Inl err \<Rightarrow> Inl err
      | Inr (e', st') \<Rightarrow> Inr (ExpressionStatement e', st'))"
| "rewrite gen reg chain (LabeledStatement tag label body) st =
     (if label = straits then Inl malformed_access
      else (case rewrite gen reg chain body st of
              Inl e \<Rightarrow> Inl e
            | Inr (body', st') \<Rightarrow> Inr (LabeledStatement tag label body', st')))"
| "rewrite gen reg chain (BlockStatement tag body) st =
     (if has reg (tag # chain) then Inr (BlockStatement tag body, st)
      else (case rewrite_list gen reg (tag # chain) body st of
              Inl e \<Rightarrow> Inl e
            | Inr (body', st') \<Rightarrow> Inr (BlockStatement tag body', st')))"
| "rewrite gen reg chain (VariableDeclaration kind ds) st =
     (case rewrite_list gen reg chain ds st of
        Inl e \<Rightarrow> Inl e
      | Inr (ds', st') \<Rightarrow> Inr (VariableDeclaration kind ds', st'))"
| "rewrite gen reg chain (VariableDeclarator i init) st =
     (case rewrite gen reg chain i st of
        Inl e \<Rightarrow> Inl e
      | Inr (i', st') \<Rightarrow>
          (case rewrite gen reg chain init st' of
             Inl e \<Rightarrow> Inl e
           | Inr (init', st'') \<Rightarrow> Inr (VariableDeclarator i' init', st'')))"
| "rewrite gen reg chain (GetSymbolFunction g) st =
     (if g = straits then Inl malformed_access else Inr (GetSymbolFunction g, st))"
| "rewrite gen reg chain (Other ty children) st =
     (case rewrite_list gen reg chain children st of
        Inl e \<Rightarrow> Inl e
      | Inr (children', st') \<Rightarrow> Inr (Other ty children', st'))"
| "rewrite_list gen reg chain [] st = Inr ([], st)"
| "rewrite_list gen reg chain (x # xs) st =
     (case rewrite gen reg chain x st of
        Inl e \<Rightarrow> Inl e
      | Inr (x', st') \<Rightarrow>
          (case rewrite_list gen reg chain xs st' of
             Inl e \<Rightarrow> Inl e
           | Inr (xs', st'') \<Rightarrow> Inr (x' # xs', st'')))"

text \<open>
  \<^verbatim>\<open>blockPath.traverse(...)\<close> for the block of a namespace: the block is found by its
  path and the traversal runs on its statements (not on the block node itself). The
  rest of the tree is left as it is.
\<close>

fun traverse_at :: "uidgen \<Rightarrow> traitNamespaces \<Rightarrow> nat list \<Rightarrow> nat list \<Rightarrow> node \<Rightarrow> TraitNamespace \<times> string list \<Rightarrow>
      error + node \<times> TraitNamespace \<times> string list"
  and traverse_at_list :: "uidgen \<Rightarrow> traitNamespaces \<Rightarrow> nat list \<Rightarrow> nat list \<Rightarrow> node list \<Rightarrow> TraitNamespace \<times> string list \<Rightarrow>
      error + node list \<times> TraitNamespace \<times> string list" where
  "traverse_at gen reg target chain (Identifier n) st = Inr (Identifier n, st)"
| "traverse_at gen reg target chain (StringLiteral v) st = Inr (StringLiteral v, st)"
| "traverse_at gen reg target chain (TemplateElement r c t) st = Inr (TemplateElement r c t, st)"
| "traverse_at gen reg target chain (MemberExpression obj name) st =
     (case traverse_at gen reg target chain obj st of
        Inl e \<Rightarrow> Inl e
      | Inr (obj', st') \<Rightarrow> Inr (MemberExpression obj' name, st'))"
| "traverse_at gen reg target chain (ComputedMemberExpression obj prop) st =
     (case traverse_at gen reg target chain obj st of
        Inl e \<Rightarrow> Inl e
      | Inr (obj', st') \<Rightarrow>
          (case traverse_at gen reg target chain prop st' of
             Inl e \<Rightarrow> Inl e
           | Inr (prop', st'') \<Rightarrow> Inr (ComputedMemberExpression obj' prop', st'')))"
| "traverse_at gen reg target chain (CallExpression callee args) st =
     (case traverse_at gen reg target chain callee st of
        Inl e \<Rightarrow> Inl e
      | Inr (callee', st') \<Rightarrow>
          (case traverse_at_list gen reg target chain args st' of
             Inl e \<Rightarrow> Inl e
           | Inr (args', st'') \<Rightarrow> Inr (CallExpression callee' args', st'')))"
| "traverse_at gen reg target chain (ExpressionStatement e) st =
     (case traverse_at gen reg target chain e st of
        Inl err \<Rightarrow> Inl err
      | Inr (e', st') \<Rightarrow> Inr (ExpressionStatement e', st'))"
| "traverse_at gen reg target chain (LabeledStatement tag label body) st =
     (case traverse_at gen reg target chain body st of
        Inl e \<Rightarrow> Inl e
      | Inr (body', st') \<Rightarrow> Inr (LabeledStatement tag label body', st'))"
| "traverse_at gen reg target chain (BlockStatement tag body) st =
     (if tag # chain = target then
        (case rewrite_list gen reg (tag # chain) body st of
           Inl e \<Rightarrow> Inl e
         | Inr (body', st') \<Rightarrow> Inr (BlockStatement tag body', st'))
      else
        (case traverse_at_list gen reg target (tag # chain) body st of
           Inl e \<Rightarrow> Inl e
         | Inr (body', st') \<Rightarrow> Inr (BlockStatement tag body', st')))"
| "traverse_at gen reg target chain (VariableDeclaration kind ds) st =
     (case traverse_at_list gen reg target chain ds st of
        Inl e \<Rightarrow> Inl e
      | Inr (ds', st') \<Rightarrow> Inr (VariableDeclaration kind ds', st'))"
| "traverse_at gen reg target chain (VariableDeclarator i init) st =
     (case traverse_at gen reg target chain i st of
        Inl e \<Rightarrow> Inl e
      | Inr (i', st') \<Rightarrow>
          (case traverse_at gen reg target chain init st' of
             Inl e \<Rightarrow> Inl e
           | Inr (init', st'') \<Rightarrow> Inr (VariableDeclarator i' init', st'')))"
| "traverse_at gen reg target chain (GetSymbolFunction g) st = Inr (GetSymbolFunction g, st)"
| "traverse_at gen reg target chain (Other ty children) st =
     (case traverse_at_list gen reg target chain children st of
        Inl e \<Rightarrow> Inl e
      | Inr (children', st') \<Rightarrow> Inr (Other ty children', st'))"
| "traverse_at_list gen reg target chain [] st = Inr ([], st)"
| "traverse_at_list gen reg target chain (x # xs) st =
     (case traverse_at gen reg target chain x st of
        Inl e \<Rightarrow> Inl e
      | Inr (x', st') \<Rightarrow>
          (case traverse_at_list gen reg target chain xs st' of
             Inl e \<Rightarrow> Inl e
           | Inr (xs', st'') \<Rightarrow> Inr (x' # xs', st'')))"

definition blockPath_traverse :: "uidgen \<Rightarrow> traitNamespaces \<Rightarrow> nat list \<Rightarrow> program \<Rightarrow> TraitNamespace \<times> string list \<Rightarrow>
      error + program \<times> TraitNamespace \<times> string list" where
  "blockPath_traverse gen reg target prog st =
     (case (if target = [] then rewrite_list gen reg [] (body_of prog) st
            else traverse_at_list gen reg target [] (body_of prog) st) of
        Inl e \<Rightarrow> Inl e
      | Inr (body', st') \<Rightarrow> Inr (Program body', st'))"

text \<open>
  The loop of step 3 over the map, in insertion order. The state is the tree, the map
  and the names generated so far.
\<close>

fun rewrite_all :: "uidgen \<Rightarrow> nat list list \<Rightarrow> program \<times> traitNamespaces \<times> string list \<Rightarrow>
      error + program \<times> traitNamespaces \<times> string list" where
  "rewrite_all gen [] s = Inr s"
| "rewrite_all gen (block # blocks) (prog, reg, uids) =
     (case map_of reg block of
        None \<Rightarrow> rewrite_all gen blocks (prog, reg, uids)
      | Some traitNS \<Rightarrow>
          (case blockPath_traverse gen reg block prog (traitNS, uids) of
             Inl e \<Rightarrow> Inl e
           | Inr (prog', traitNS', uids') \<Rightarrow>
               rewrite_all gen blocks (prog', AList.update block traitNS' reg, uids')))"

subsection \<open>Emitting the declarations, removing the anchors\<close>

text \<open>
  \<^verbatim>\<open>path.insertBefore\<close> and \<^verbatim>\<open>path.remove\<close> act on the statement list that holds the
  statement \<open>path\<close>, the body of a block or of the program. \<open>splice f\<close> rebuilds every
  such list of the tree, \<open>f\<close> giving the statements that stand for each statement.
\<close>

fun splice :: "(node \<Rightarrow> node list) \<Rightarrow> node \<Rightarrow> node"
  and splice_stmts :: "(node \<Rightarrow> node list) \<Rightarrow> node list \<Rightarrow> node list"
  and splice_children :: "(node \<Rightarrow> node list) \<Rightarrow> node list \<Rightarrow> node list" where
  "splice f (Identifier n) = Identifier n"
| "splice f (StringLiteral v) = StringLiteral v"
| "splice f (TemplateElement r c t) = TemplateElement r c t"
| "splice f (MemberExpression obj name) = MemberExpression (splice f obj) name"
| "splice f (ComputedMemberExpression obj prop) = ComputedMemberExpression (splice f obj) (splice f prop)"
| "splice f (CallExpression callee args) = CallExpression (splice f callee) (splice_children f args)"
| "splice f (ExpressionStatement e) = ExpressionStatement (splice f e)"
| "splice f (LabeledStatement tag label body) = LabeledStatement tag label (splice f body)"
| "splice f (BlockStatement tag body) = BlockStatement tag (splice_stmts f body)"
| "splice f (VariableDeclaration kind ds) = VariableDeclaration kind (splice_children f ds)"
| "splice f (VariableDeclarator i init) = VariableDeclarator (splice f i) (splice f init)"
| "splice f (GetSymbolFunction g) = GetSymbolFunction g"
| "splice f (Other ty children) = Other ty (splice_children f children)"
| "splice_stmts f [] = []"
| "splice_stmts f (x # xs) = f (splice f x) @ splice_stmts f xs"
| "splice_children f [] = []"
| "splice_children f (x # xs) = splice f x # splice_children f xs"

fun is_statement :: "nat \<Rightarrow> node \<Rightarrow> bool" where
  "is_statement p (LabeledStatement tag label body) = (tag = p)"
| "is_statement p n = False"

definition insertBefore :: "nat \<Rightarrow> node \<Rightarrow> program \<Rightarrow> program" where
  "insertBefore p new prog =
     Program (splice_stmts (\<lambda>x. if is_statement p x then [new, x] else [x]) (body_of prog))"

definition remove_path :: "nat \<Rightarrow> program \<Rightarrow> program" where
  "remove_path p prog =
     Program (splice_stmts (\<lambda>x. if is_statement p x then [] else [x]) (body_of prog))"

text \<open>
  \<^verbatim>\<open>finalize( getSymbolIdentifier )\<close> and \<^verbatim>\<open>remove()\<close> of a namespace. The
  source puts the expression node of each provider into every declarator, the node
  itself; the model puts its value, a copy. The two trees read the same unless a later
  insertion or removal acts inside such an expression, that is, unless a provider
  expression holds a block that is a namespace: then the source changes the one shared
  node wherever it stands, the declaration being built included, and the model does not
  describe its tree.
\<close>

definition variableDeclarator :: "string \<Rightarrow> node list \<Rightarrow> string \<times> string \<Rightarrow> node" where
  "variableDeclarator getSymbolIdentifier providingExpressions entry =
     (case entry of (name, ident) \<Rightarrow>
        VariableDeclarator (Identifier ident)
          (CallExpression (Identifier getSymbolIdentifier) (StringLiteral name # providingExpressions)))"

definition finalize :: "string \<Rightarrow> program \<Rightarrow> TraitNamespace \<Rightarrow> program" where
  "finalize getSymbolIdentifier prog ns =
     (let providingExpressions = List.map_filter (provider_expression prog) (providers ns)
      in if symbols ns = [] then prog
         else insertBefore (path ns)
                (VariableDeclaration ''const''
                   (map (variableDeclarator getSymbolIdentifier providingExpressions) (symbols ns)))
                prog)"

definition remove :: "program \<Rightarrow> TraitNamespace \<Rightarrow> program" where
  "remove prog ns = remove_path (path ns) prog"

subsection \<open>The literal text patcher\<close>

text \<open>
  \<^verbatim>\<open>
  function cleanString( str ) {
    return str
      .replace(/\._Straits\.?/g, `.*` )
      .replace(/_StraitsProvider:/g,  `use traits * from` );
  }
  \<close>
  A global replace scans the string from the left: where the pattern matches, the
  match is replaced and the scan goes on behind it; elsewhere one character is kept.
  \<^verbatim>\<open>\.?\<close> takes the dot behind \<^verbatim>\<open>._Straits\<close> when there is one.
\<close>

definition drop_dot :: "string \<Rightarrow> string" where
  "drop_dot s = (case s of [] \<Rightarrow> [] | c # cs \<Rightarrow> if c = CHR ''.'' then cs else c # cs)"

lemma length_drop_dot: "length (drop_dot s) \<le> length s"
  by (cases s) (simp_all add: drop_dot_def)

function replace_Straits :: "string \<Rightarrow> string" where
  "replace_Straits [] = []"
| "replace_Straits (c # cs) =
     (if take 9 (c # cs) = ''._Straits''
      then ''.*'' @ replace_Straits (drop_dot (drop 8 cs))
      else c # replace_Straits cs)"
  by pat_completeness auto
termination
proof (relation "measure length")
  show "wf (measure length)" by simp
next
  fix c :: char and cs :: string
  have "length (drop_dot (drop 8 cs)) \<le> length (drop 8 cs)" by (rule length_drop_dot)
  then show "(drop_dot (drop 8 cs), c # cs) \<in> measure length" by simp
next
  fix c :: char and cs :: string
  show "(cs, c # cs) \<in> measure length" by simp
qed

function replace_StraitsProvider :: "string \<Rightarrow> string" where
  "replace_StraitsProvider [] = []"
| "replace_StraitsProvider (c # cs) =
     (if take 17 (c # cs) = ''_StraitsProvider:''
      then ''use traits * from'' @ replace_StraitsProvider (drop 16 cs)
      else c # replace_StraitsProvider cs)"
  by pat_completeness auto
termination
  by (relation "measure length") simp_all

definition cleanString :: "string \<Rightarrow> string" where
  "cleanString str = replace_StraitsProvider (replace_Straits str)"

text \<open>
  The last traversal, with the \<^verbatim>\<open>StringLiteral\<close> and \<^verbatim>\<open>TemplateElement\<close> visitors. A
  string literal whose text does not change stays; a template element is replaced only
  when both its raw and its cooked text change (the test of the source is
  \<^verbatim>\<open>newValue.raw === value.raw || newValue.cooked === value.cooked\<close>).
\<close>

fun clean :: "node \<Rightarrow> node"
  and clean_list :: "node list \<Rightarrow> node list" where
  "clean (Identifier n) = Identifier n"
| "clean (StringLiteral str) = StringLiteral (cleanString str)"
| "clean (TemplateElement raw cooked tail) =
     (if cleanString raw = raw \<or> cleanString cooked = cooked
      then TemplateElement raw cooked tail
      else TemplateElement (cleanString raw) (cleanString cooked) tail)"
| "clean (MemberExpression obj name) = MemberExpression (clean obj) name"
| "clean (ComputedMemberExpression obj prop) = ComputedMemberExpression (clean obj) (clean prop)"
| "clean (CallExpression callee args) = CallExpression (clean callee) (clean_list args)"
| "clean (ExpressionStatement e) = ExpressionStatement (clean e)"
| "clean (LabeledStatement tag label body) = LabeledStatement tag label (clean body)"
| "clean (BlockStatement tag body) = BlockStatement tag (clean_list body)"
| "clean (VariableDeclaration kind ds) = VariableDeclaration kind (clean_list ds)"
| "clean (VariableDeclarator i init) = VariableDeclarator (clean i) (clean init)"
| "clean (GetSymbolFunction g) = GetSymbolFunction g"
| "clean (Other ty children) = Other ty (clean_list children)"
| "clean_list [] = []"
| "clean_list (x # xs) = clean x # clean_list xs"

definition clean_program :: "program \<Rightarrow> program" where
  "clean_program prog = Program (clean_list (body_of prog))"

subsection \<open>The final check\<close>

text \<open>
  \<^verbatim>\<open>finalCheck( path )\<close>: a traversal with an \<^verbatim>\<open>Identifier\<close> visitor that throws at the
  first identifier named \<^verbatim>\<open>_Straits\<close>. The property of a member expression that is not
  computed, the label of a labeled statement and the name of a function are identifier
  nodes. The other identifiers of the injected function are those of the template.
\<close>

fun finalCheck_node :: "node \<Rightarrow> error option"
  and finalCheck_list :: "node list \<Rightarrow> error option" where
  "finalCheck_node (Identifier n) = (if n = straits then Some used_without_traits else None)"
| "finalCheck_node (StringLiteral v) = None"
| "finalCheck_node (TemplateElement r c t) = None"
| "finalCheck_node (MemberExpression obj name) =
     (case finalCheck_node obj of
        Some e \<Rightarrow> Some e
      | None \<Rightarrow> if name = straits then Some used_without_traits else None)"
| "finalCheck_node (ComputedMemberExpression obj prop) =
     (case finalCheck_node obj of Some e \<Rightarrow> Some e | None \<Rightarrow> finalCheck_node prop)"
| "finalCheck_node (CallExpression callee args) =
     (case finalCheck_node callee of Some e \<Rightarrow> Some e | None \<Rightarrow> finalCheck_list args)"
| "finalCheck_node (ExpressionStatement e) = finalCheck_node e"
| "finalCheck_node (LabeledStatement tag label body) =
     (if label = straits then Some used_without_traits else finalCheck_node body)"
| "finalCheck_node (BlockStatement tag body) = finalCheck_list body"
| "finalCheck_node (VariableDeclaration kind ds) = finalCheck_list ds"
| "finalCheck_node (VariableDeclarator i init) =
     (case finalCheck_node i of Some e \<Rightarrow> Some e | None \<Rightarrow> finalCheck_node init)"
| "finalCheck_node (GetSymbolFunction g) = (if g = straits then Some used_without_traits else None)"
| "finalCheck_node (Other ty children) = finalCheck_list children"
| "finalCheck_list [] = None"
| "finalCheck_list (x # xs) =
     (case finalCheck_node x of Some e \<Rightarrow> Some e | None \<Rightarrow> finalCheck_list xs)"

definition finalCheck :: "program \<Rightarrow> error option" where
  "finalCheck prog = finalCheck_list (body_of prog)"

subsection \<open>The pass\<close>

text \<open>
  The \<^verbatim>\<open>Program\<close> visitor of the plugin. \<open>Inl\<close> is a throw of the pass, \<open>Inr\<close> the tree it
  leaves behind.
\<close>

definition unshiftContainer :: "node \<Rightarrow> program \<Rightarrow> program" where
  "unshiftContainer n prog = Program (n # body_of prog)"

definition pass :: "uidgen \<Rightarrow> program \<Rightarrow> error + program" where
  "pass gen prog =
     (let getSymbolIdentifier = gen [] [] ''getSymbol'' in
      case collect_program prog of
        Inl e \<Rightarrow> Inl e
      | Inr traitNamespaces \<Rightarrow>
          if traitNamespaces = [] then
            (case finalCheck prog of Some e \<Rightarrow> Inl e | None \<Rightarrow> Inr prog)
          else
            (let prog1 = unshiftContainer (GetSymbolFunction getSymbolIdentifier) prog in
             case inherit prog1 traitNamespaces of
               Inl e \<Rightarrow> Inl e
             | Inr inherited \<Rightarrow>
                 (case rewrite_all gen (map fst inherited) (prog1, inherited, [getSymbolIdentifier]) of
                    Inl e \<Rightarrow> Inl e
                  | Inr (prog2, rewritten, uids) \<Rightarrow>
                      (let prog3 = foldl (finalize getSymbolIdentifier) prog2 (map snd rewritten);
                           prog4 = foldl remove prog3 (map snd rewritten);
                           prog5 = clean_program prog4
                       in case finalCheck prog5 of Some e \<Rightarrow> Inl e | None \<Rightarrow> Inr prog5))))"

section \<open>Example units\<close>

text \<open>
  A name generator for the examples: an underscore before the name, and the digit 2
  behind it when that name has been generated before. Babel's generator also looks at
  the names of the unit, strips the digits at the end of the name asked for, and counts
  on after 2; the examples that use this generator do not reach these cases.
\<close>

definition demo_uid :: uidgen where
  "demo_uid block uids name =
     (if (''_'' @ name) \<in> set uids then ''_'' @ name @ ''2'' else ''_'' @ name)"

text \<open>
  \<^verbatim>\<open>use traits * from symbols1; use traits * from symbols2;\<close>, as the first
  statements of \<^verbatim>\<open>src/unnamed/part_000\<close>, in the placeholder form the pass receives.
\<close>

definition two_providers :: program where
  "two_providers = Program [
     LabeledStatement 1 ''_StraitsProvider'' (ExpressionStatement (Identifier ''symbols1'')),
     LabeledStatement 2 ''_StraitsProvider'' (ExpressionStatement (Identifier ''symbols2''))]"


text \<open>\<^verbatim>\<open>var _Straits;\<close>: a binding of the user's with the reserved name.\<close>

definition user_binding :: program where
  "user_binding = Program [Other ''VariableDeclaration'' [Other ''VariableDeclarator'' [Identifier ''_Straits'']]]"

text \<open>\<^verbatim>\<open>log("a._Straits.b");\<close>: a string literal, in a unit with no provider statement.\<close>

definition literal_only :: program where
  "literal_only = Program [ExpressionStatement (CallExpression (Identifier ''log'') [StringLiteral ''a._Straits.b''])]"

section \<open>Identifiers and the final check\<close>

definition template_identifiers :: "string list" where
  "template_identifiers =
     [''targetSymName'', ''symbolSets'', ''symbol'', ''symbolSets'', ''forEach'', ''symbolSet'',
      ''symbolSet'', ''targetSymName'', ''symbol'', ''Error'', ''targetSymName'',
      ''symbol'', ''symbolSet'', ''targetSymName'', ''symbol'', ''Error'', ''targetSymName'',
      ''symbol'']"

text \<open>The names of the identifier nodes of a tree, in the order a traversal meets them.\<close>

fun identifiers :: "node \<Rightarrow> string list"
  and identifiers_list :: "node list \<Rightarrow> string list" where
  "identifiers (Identifier n) = [n]"
| "identifiers (StringLiteral v) = []"
| "identifiers (TemplateElement r c t) = []"
| "identifiers (MemberExpression obj name) = identifiers obj @ [name]"
| "identifiers (ComputedMemberExpression obj prop) = identifiers obj @ identifiers prop"
| "identifiers (CallExpression callee args) = identifiers callee @ identifiers_list args"
| "identifiers (ExpressionStatement e) = identifiers e"
| "identifiers (LabeledStatement tag label body) = label # identifiers body"
| "identifiers (BlockStatement tag body) = identifiers_list body"
| "identifiers (VariableDeclaration kind ds) = identifiers_list ds"
| "identifiers (VariableDeclarator i init) = identifiers i @ identifiers init"
| "identifiers (GetSymbolFunction g) = g # template_identifiers"
| "identifiers (Other ty children) = identifiers_list children"
| "identifiers_list [] = []"
| "identifiers_list (x # xs) = identifiers x @ identifiers_list xs"

definition program_identifiers :: "program \<Rightarrow> string list" where
  "program_identifiers prog = identifiers_list (body_of prog)"

text \<open>The provider statements of a tree (their identities), wherever they stand.\<close>

fun provider_statements :: "node \<Rightarrow> nat list"
  and provider_statements_list :: "node list \<Rightarrow> nat list" where
  "provider_statements (Identifier n) = []"
| "provider_statements (StringLiteral v) = []"
| "provider_statements (TemplateElement r c t) = []"
| "provider_statements (MemberExpression obj name) = provider_statements obj"
| "provider_statements (ComputedMemberExpression obj prop) =
     provider_statements obj @ provider_statements prop"
| "provider_statements (CallExpression callee args) =
     provider_statements callee @ provider_statements_list args"
| "provider_statements (ExpressionStatement e) = provider_statements e"
| "provider_statements (LabeledStatement tag label body) =
     (if label = straitsProvider then [tag] else []) @ provider_statements body"
| "provider_statements (BlockStatement tag body) = provider_statements_list body"
| "provider_statements (VariableDeclaration kind ds) = provider_statements_list ds"
| "provider_statements (VariableDeclarator i init) =
     provider_statements i @ provider_statements init"
| "provider_statements (GetSymbolFunction g) = []"
| "provider_statements (Other ty children) = provider_statements_list children"
| "provider_statements_list [] = []"
| "provider_statements_list (x # xs) = provider_statements x @ provider_statements_list xs"

lemma straits_not_template: "straits \<notin> set template_identifiers"
  by (simp add: straits_def template_identifiers_def)

lemma finalCheck_node_identifiers:
  "finalCheck_node n = (if straits \<in> set (identifiers n) then Some used_without_traits else None)"
  "finalCheck_list ns = (if straits \<in> set (identifiers_list ns) then Some used_without_traits else None)"
  by (induction n and ns rule: finalCheck_node_finalCheck_list.induct)
     (auto simp: straits_not_template)

lemma finalCheck_identifiers:
  "finalCheck prog =
     (if straits \<in> set (program_identifiers prog) then Some used_without_traits else None)"
  by (simp add: finalCheck_def program_identifiers_def finalCheck_node_identifiers)

lemma pass_no_marker:
  "pass gen prog = Inr out \<Longrightarrow> straits \<notin> set (program_identifiers out)"
  by (auto simp: pass_def Let_def finalCheck_identifiers
           split: sum.splits if_splits option.splits prod.splits)

lemma collect_no_provider:
  "provider_statements n = [] \<Longrightarrow> collect prog chain inBlock n reg = Inr reg"
  "provider_statements_list ns = [] \<Longrightarrow> collect_list prog chain inBlock ns reg = Inr reg"
  by (induction prog chain inBlock n reg and prog chain inBlock ns reg
        rule: collect_collect_list.induct)
     (auto split: if_splits)

lemma marker_object_eq:
  "marker_object n = Some obj \<longleftrightarrow> n = MemberExpression obj straits"
  by (cases n) auto


text \<open>
  C10. The final check looks at the name of an identifier and at nothing else: it
  throws exactly when some identifier of the tree is named \<^verbatim>\<open>_Straits\<close>. In a unit
  with no provider statement the pass goes to the final check at once, so any such
  identifier, a binding of the user's included, makes the pass throw the
  compile-time error. In a unit with provider statements the final check runs last, so
  the pass cannot succeed with such an identifier in its result.
\<close>

theorem finalCheck_keys_on_name:
  "finalCheck prog =
     (if straits \<in> set (program_identifiers prog) then Some used_without_traits else None) \<and>
   (straits \<in> set (program_identifiers prog) \<longrightarrow>
    provider_statements_list (body_of prog) = [] \<longrightarrow>
      pass gen prog = Inl used_without_traits) \<and>
   (pass gen prog = Inr out \<longrightarrow> straits \<notin> set (program_identifiers out))"
proof -
  have "pass gen prog = Inl used_without_traits"
    if "straits \<in> set (program_identifiers prog)"
      and "provider_statements_list (body_of prog) = []"
  proof -
    have "collect_program prog = Inr []"
      using that(2) by (simp add: collect_program_def collect_no_provider)
    then show ?thesis
      using that(1) by (simp add: pass_def finalCheck_identifiers)
  qed
  then show ?thesis using pass_no_marker by (simp add: finalCheck_identifiers)
qed

theorem finalCheck_keys_on_name_witness:
  "straits \<in> set (program_identifiers user_binding) \<and>
   provider_statements_list (body_of user_binding) = [] \<and>
   finalCheck user_binding = Some used_without_traits \<and>
   pass demo_uid user_binding = Inl used_without_traits"
proof -
  have a: "straits \<in> set (program_identifiers user_binding)"
    by (simp add: program_identifiers_def user_binding_def straits_def)
  have b: "provider_statements_list (body_of user_binding) = []"
    by (simp add: user_binding_def)
  show ?thesis
    using a b finalCheck_keys_on_name [of user_binding demo_uid] by simp
qed



section \<open>Inheritance of providers\<close>

text \<open>
  \<open>own_providers reg block\<close> is the provider set of the namespace of a block in the map
  \<open>reg\<close> (empty when the block has none); \<open>effective_providers\<close> adds those of the
  namespaces of the blocks around it.
\<close>

definition own_providers :: "traitNamespaces \<Rightarrow> nat list \<Rightarrow> nat set" where
  "own_providers reg block = (case map_of reg block of None \<Rightarrow> {} | Some ns \<Rightarrow> set (providers ns))"

definition effective_providers :: "traitNamespaces \<Rightarrow> nat list \<Rightarrow> nat set" where
  "effective_providers reg block =
     own_providers reg block \<union> (\<Union>parent \<in> set (parentPaths block). own_providers reg parent)"

lemma set_set_add: "set (set_add xs x) = insert x (set xs)"
  by (auto simp: set_add_def)

lemma addProvider_Inr:
  "addProvider prog ns p = Inr ns' \<Longrightarrow> ns' = ns\<lparr>providers := set_add (providers ns) p\<rparr>"
  by (auto simp: addProvider_def Let_def split: if_splits)

lemma addProviders_Inr:
  "addProviders prog ns ps = Inr ns' \<Longrightarrow>
   set (providers ns') = set (providers ns) \<union> set ps \<and>
   path ns' = path ns \<and> blockPath ns' = blockPath ns \<and> symbols ns' = symbols ns"
proof (induction ps arbitrary: ns)
  case Nil
  then show ?case by simp
next
  case (Cons p ps)
  then obtain ns1 where a: "addProvider prog ns p = Inr ns1" and b: "addProviders prog ns1 ps = Inr ns'"
    by (auto split: sum.splits)
  from addProvider_Inr [OF a] Cons.IH [OF b] show ?case
    by (auto simp: set_set_add)
qed

lemma inherit_from_Inr:
  "inherit_from prog reg ns ps = Inr ns' \<Longrightarrow>
   set (providers ns') = set (providers ns) \<union> (\<Union>parent \<in> set ps. own_providers reg parent) \<and>
   path ns' = path ns \<and> blockPath ns' = blockPath ns \<and> symbols ns' = symbols ns"
proof (induction ps arbitrary: ns)
  case Nil
  then show ?case by simp
next
  case (Cons p ps)
  show ?case
  proof (cases "map_of reg p")
    case None
    with Cons.prems have "inherit_from prog reg ns ps = Inr ns'" by simp
    from Cons.IH [OF this] None show ?thesis by (simp add: own_providers_def)
  next
    case (Some parent)
    with Cons.prems obtain ns1 where a: "addProviders prog ns (providers parent) = Inr ns1"
      and b: "inherit_from prog reg ns1 ps = Inr ns'"
      by (auto split: sum.splits)
    from addProviders_Inr [OF a] Cons.IH [OF b] Some show ?thesis
      by (auto simp: own_providers_def)
  qed
qed

lemma parentPaths_trans:
  "p \<in> set (parentPaths k) \<Longrightarrow> set (parentPaths p) \<subseteq> set (parentPaths k)"
  by (induction k) auto

lemma effective_mono:
  "p \<in> set (parentPaths k) \<Longrightarrow> effective_providers reg p \<subseteq> effective_providers reg k"
  using parentPaths_trans [of p k] by (auto simp: effective_providers_def)

definition inherit_inv :: "traitNamespaces \<Rightarrow> traitNamespaces \<Rightarrow> nat list set \<Rightarrow> bool" where
  "inherit_inv reg0 reg done \<longleftrightarrow>
     (\<forall>k. (map_of reg k = None) = (map_of reg0 k = None)) \<and>
     (\<forall>k. own_providers reg0 k \<subseteq> own_providers reg k \<and> own_providers reg k \<subseteq> effective_providers reg0 k) \<and>
     (\<forall>k \<in> done. map_of reg0 k \<noteq> None \<longrightarrow> own_providers reg k = effective_providers reg0 k)"

lemma own_providers_update:
  "own_providers (AList.update k ns reg) k' = (if k' = k then set (providers ns) else own_providers reg k')"
  by (simp add: own_providers_def update_conv')

lemma inherit_step:
  assumes inv: "inherit_inv reg0 reg done"
    and look: "map_of reg k = Some ns"
    and step: "inherit_from prog reg ns (parentPaths k) = Inr ns'"
  shows "inherit_inv reg0 (AList.update k ns' reg) (insert k done)"
proof -
  from inherit_from_Inr [OF step]
  have prov: "set (providers ns') = set (providers ns) \<union> (\<Union>parent \<in> set (parentPaths k). own_providers reg parent)"
    by simp
  have ownk: "own_providers reg k = set (providers ns)"
    using look by (simp add: own_providers_def)
  have lower: "effective_providers reg0 k \<subseteq> set (providers ns')"
    using inv ownk unfolding prov effective_providers_def inherit_inv_def by blast
  have upper: "set (providers ns') \<subseteq> effective_providers reg0 k"
  proof -
    have "own_providers reg parent \<subseteq> effective_providers reg0 k" if "parent \<in> set (parentPaths k)" for parent
    proof -
      have "own_providers reg parent \<subseteq> effective_providers reg0 parent"
        using inv by (simp add: inherit_inv_def)
      with effective_mono [OF that] show ?thesis by blast
    qed
    moreover have "set (providers ns) \<subseteq> effective_providers reg0 k"
      using inv ownk unfolding inherit_inv_def by metis
    ultimately show ?thesis unfolding prov by blast
  qed
  have eq: "set (providers ns') = effective_providers reg0 k" using lower upper by blast
  have "(map_of reg k = None) = (map_of reg0 k = None)"
    using inv unfolding inherit_inv_def by blast
  with look have dom: "map_of reg0 k \<noteq> None" by simp
  show ?thesis
    unfolding inherit_inv_def
  proof (intro conjI allI ballI impI)
    fix k'
    show "(map_of (AList.update k ns' reg) k' = None) = (map_of reg0 k' = None)"
      using inv dom by (auto simp: inherit_inv_def update_conv')
  next
    fix k'
    show "own_providers reg0 k' \<subseteq> own_providers (AList.update k ns' reg) k'"
      using inv eq by (auto simp: own_providers_update inherit_inv_def effective_providers_def)
  next
    fix k'
    show "own_providers (AList.update k ns' reg) k' \<subseteq> effective_providers reg0 k'"
      using inv eq by (auto simp: own_providers_update inherit_inv_def)
  next
    fix k' assume "k' \<in> insert k done" "map_of reg0 k' \<noteq> None"
    then show "own_providers (AList.update k ns' reg) k' = effective_providers reg0 k'"
      using inv eq by (auto simp: own_providers_update inherit_inv_def)
  qed
qed

lemma inherit_all_inv:
  "inherit_inv reg0 reg done \<Longrightarrow> inherit_all prog reg ks = Inr reg' \<Longrightarrow>
   inherit_inv reg0 reg' (done \<union> {k \<in> set ks. map_of reg0 k \<noteq> None})"
proof (induction ks arbitrary: reg "done")
  case Nil
  then show ?case by simp
next
  case (Cons k ks)
  show ?case
  proof (cases "map_of reg k")
    case None
    then have n0: "map_of reg0 k = None" using Cons.prems(1) by (simp add: inherit_inv_def)
    from None Cons.prems(2) have "inherit_all prog reg ks = Inr reg'" by simp
    from Cons.IH [OF Cons.prems(1) this] n0 show ?thesis
      by (auto simp: inherit_inv_def)
  next
    case (Some ns)
    with Cons.prems(2) obtain ns' where a: "inherit_from prog reg ns (parentPaths k) = Inr ns'"
      and b: "inherit_all prog (AList.update k ns' reg) ks = Inr reg'"
      by (auto split: sum.splits)
    have "inherit_inv reg0 reg' (insert k done \<union> {k \<in> set ks. map_of reg0 k \<noteq> None})"
      by (rule Cons.IH [OF inherit_step [OF Cons.prems(1) Some a] b])
    then show ?thesis by (auto simp: inherit_inv_def)
  qed
qed

lemma inherit_effective:
  assumes "inherit prog reg = Inr reg'" and "map_of reg' k = Some ns'"
  shows "set (providers ns') = effective_providers reg k"
proof -
  have "inherit_inv reg reg {}"
    by (auto simp: inherit_inv_def effective_providers_def)
  from inherit_all_inv [OF this assms(1) [unfolded inherit_def]]
  have inv: "inherit_inv reg reg' {k \<in> set (map fst reg). map_of reg k \<noteq> None}" by simp
  have "(map_of reg' k = None) = (map_of reg k = None)"
    using inv unfolding inherit_inv_def by blast
  with assms(2) have "map_of reg k \<noteq> None" by simp
  then have "k \<in> set (map fst reg)" by (metis map_of_eq_None_iff set_map)
  with inv \<open>map_of reg k \<noteq> None\<close> have "own_providers reg' k = effective_providers reg k"
    by (auto simp: inherit_inv_def)
  with assms(2) show ?thesis by (simp add: own_providers_def)
qed


fun declared_in :: "nat list \<Rightarrow> nat list \<Rightarrow> node \<Rightarrow> nat list"
  and declared_in_list :: "nat list \<Rightarrow> nat list \<Rightarrow> node list \<Rightarrow> nat list" where
  "declared_in block chain (Identifier n) = []"
| "declared_in block chain (StringLiteral v) = []"
| "declared_in block chain (TemplateElement r c t) = []"
| "declared_in block chain (MemberExpression obj name) = declared_in block chain obj"
| "declared_in block chain (ComputedMemberExpression obj prop) =
     declared_in block chain obj @ declared_in block chain prop"
| "declared_in block chain (CallExpression callee args) =
     declared_in block chain callee @ declared_in_list block chain args"
| "declared_in block chain (ExpressionStatement e) = declared_in block chain e"
| "declared_in block chain (LabeledStatement tag label body) =
     (if label = straitsProvider \<and> chain = block then [tag] else []) @ declared_in block chain body"
| "declared_in block chain (BlockStatement tag body) = declared_in_list block (tag # chain) body"
| "declared_in block chain (VariableDeclaration kind ds) = declared_in_list block chain ds"
| "declared_in block chain (VariableDeclarator i init) =
     declared_in block chain i @ declared_in block chain init"
| "declared_in block chain (GetSymbolFunction g) = []"
| "declared_in block chain (Other ty children) = declared_in_list block chain children"
| "declared_in_list block chain [] = []"
| "declared_in_list block chain (x # xs) = declared_in block chain x @ declared_in_list block chain xs"

lemma register_own:
  assumes "register prog reg chain tag = Inr reg'"
  shows "own_providers reg' k = own_providers reg k \<union> (if k = chain then {tag} else {})"
proof (cases "map_of reg chain")
  case None
  with assms obtain ns ns' where a: "new_TraitNamespace prog chain tag = Inr ns"
    and b: "addProvider prog ns tag = Inr ns'" and c: "reg' = AList.update chain ns' reg"
    by (auto simp: register_def split: sum.splits)
  from a have "set (providers ns) = {tag}"
    unfolding new_TraitNamespace_def by (auto dest!: addProvider_Inr simp: set_set_add)
  with addProvider_Inr [OF b] have p: "set (providers ns') = {tag}"
    by (simp add: set_set_add)
  have u: "own_providers reg' k = (if k = chain then set (providers ns') else own_providers reg k)"
    unfolding c by (rule own_providers_update)
  have e: "own_providers reg chain = {}"
    using None by (simp add: own_providers_def)
  show ?thesis
  proof (cases "k = chain")
    case True
    with u p e show ?thesis by simp
  next
    case False
    with u show ?thesis by simp
  qed
next
  case (Some ns)
  with assms obtain ns' where b: "addProvider prog ns tag = Inr ns'" and c: "reg' = AList.update chain ns' reg"
    by (auto simp: register_def split: sum.splits)
  from addProvider_Inr [OF b] have p: "set (providers ns') = insert tag (set (providers ns))"
    by (simp add: set_set_add)
  have u: "own_providers reg' k = (if k = chain then set (providers ns') else own_providers reg k)"
    unfolding c by (rule own_providers_update)
  have e: "own_providers reg chain = set (providers ns)"
    using Some by (simp add: own_providers_def)
  show ?thesis
  proof (cases "k = chain")
    case True
    with u p e show ?thesis by simp
  next
    case False
    with u show ?thesis by simp
  qed
qed

lemma collect_own:
  "collect prog chain inBlock n reg = Inr reg' \<Longrightarrow>
     own_providers reg' k = own_providers reg k \<union> set (declared_in k chain n)"
  "collect_list prog chain inBlock ns reg = Inr reg' \<Longrightarrow>
     own_providers reg' k = own_providers reg k \<union> set (declared_in_list k chain ns)"
proof (induction prog chain inBlock n reg and prog chain inBlock ns reg
        arbitrary: reg' and reg' rule: collect_collect_list.induct)
  case (8 prog chain inBlock tag label body reg)
  show ?case
  proof (cases "label = straitsProvider")
    case False
    with 8 show ?thesis by simp
  next
    case True
    with "8.prems" obtain reg1 where a: "register prog reg chain tag = Inr reg1"
      and b: "collect prog chain False body reg1 = Inr reg'" and ib: inBlock
      by (auto split: if_splits sum.splits)
    have "own_providers reg' k = own_providers reg1 k \<union> set (declared_in k chain body)"
      using "8.IH"(2) True ib a b by simp
    with register_own [OF a, of k] True show ?thesis by auto
  qed
qed (auto split: sum.splits)


definition nested_providers :: program where
  "nested_providers = Program [
     LabeledStatement 1 ''_StraitsProvider'' (ExpressionStatement (Identifier ''outer'')),
     Other ''FunctionDeclaration'' [Identifier ''f'', BlockStatement 3 [
        LabeledStatement 4 ''_StraitsProvider'' (ExpressionStatement (Identifier ''inner'')),
        ExpressionStatement (MemberExpression (MemberExpression (Identifier ''b'') ''_Straits'') ''value'')]]]"

lemma pass_nested_providers:
  "pass demo_uid nested_providers =
     Inr (Program
       [GetSymbolFunction ''_getSymbol'',
        Other ''FunctionDeclaration''
         [Identifier ''f'',
          BlockStatement 3
           [VariableDeclaration ''const''
             [VariableDeclarator (Identifier ''_value'')
               (CallExpression (Identifier ''_getSymbol'')
                 [StringLiteral ''value'', Identifier ''inner'', Identifier ''outer''])],
            ExpressionStatement
             (ComputedMemberExpression (Identifier ''b'') (Identifier ''_value''))]]])"
  by code_simp



lemmas eval_defs = collect_program_def register_def new_TraitNamespace_def addProvider_def
  provider_expression_def set_add_def inherit_def straits_def straitsProvider_def






section \<open>Removal of the anchor statements\<close>

text \<open>
  C3. \<^verbatim>\<open>remove()\<close> removes \<^verbatim>\<open>this.path\<close>, the first provider statement found in the
  block; the other provider statements of the block are in \<^verbatim>\<open>this.providers\<close> only and
  stay in the tree. On the unit with two provider statements at the top level the pass
  succeeds and leaves the second one behind.
\<close>

theorem second_provider_statement_stays:
  "pass demo_uid two_providers =
     Inr (Program [GetSymbolFunction ''_getSymbol'',
            LabeledStatement 2 ''_StraitsProvider'' (ExpressionStatement (Identifier ''symbols2''))])"
  by code_simp

text \<open>
  C9. The output of that run holds no identifier named \<^verbatim>\<open>_Straits\<close> but still holds
  a provider statement, so a second run finds a namespace: it injects a second resolver
  function and removes the statement. The second run changes the tree, whatever the
  name generator.
\<close>

theorem second_run_changes_the_tree:
  "pass gen (Program [GetSymbolFunction ''_getSymbol'',
            LabeledStatement 2 ''_StraitsProvider'' (ExpressionStatement (Identifier ''symbols2''))])
   \<noteq> Inr (Program [GetSymbolFunction ''_getSymbol'',
            LabeledStatement 2 ''_StraitsProvider'' (ExpressionStatement (Identifier ''symbols2''))])"
  by (simp add: pass_def eval_defs blockPath_traverse_def finalize_def remove_def remove_path_def
        insertBefore_def clean_program_def finalCheck_def unshiftContainer_def Let_def
      split: sum.splits option.splits)

text \<open>
  A second run is a no-op on every result that holds no provider statement any more.
\<close>

lemma second_run_without_provider_statements:
  assumes "pass gen prog = Inr out" and "provider_statements_list (body_of out) = []"
  shows "pass gen' out = Inr out"
proof -
  from assms(2) have "collect_program out = Inr []"
    by (simp add: collect_program_def collect_no_provider)
  moreover from pass_no_marker [OF assms(1)] have "finalCheck out = None"
    by (simp add: finalCheck_identifiers)
  ultimately show ?thesis by (simp add: pass_def)
qed

section \<open>The rewriter\<close>

text \<open>
  What one traversal of step 3 does, in terms of the map it is given: \<open>requested\<close>
  lists the trait names of the trait accesses of a subtree, in traversal order, the
  blocks that are keys of the map left out; \<open>resolved ident\<close> is the subtree with
  every trait access \<^verbatim>\<open>obj._Straits.name\<close> outside these blocks replaced by
  \<^verbatim>\<open>obj[ident name]\<close> and every computed one by the plain access.
\<close>

fun requested :: "traitNamespaces \<Rightarrow> nat list \<Rightarrow> node \<Rightarrow> string list"
  and requested_list :: "traitNamespaces \<Rightarrow> nat list \<Rightarrow> node list \<Rightarrow> string list" where
  "requested reg chain (Identifier n) = []"
| "requested reg chain (StringLiteral v) = []"
| "requested reg chain (TemplateElement r c t) = []"
| "requested reg chain (MemberExpression obj name) =
     (case marker_object obj of
        Some obj0 \<Rightarrow> requested reg chain obj0 @ [name]
      | None \<Rightarrow> requested reg chain obj)"
| "requested reg chain (ComputedMemberExpression obj prop) =
     (case marker_object obj of
        Some obj0 \<Rightarrow> requested reg chain obj0 @ requested reg chain prop
      | None \<Rightarrow> requested reg chain obj @ requested reg chain prop)"
| "requested reg chain (CallExpression callee args) =
     requested reg chain callee @ requested_list reg chain args"
| "requested reg chain (ExpressionStatement e) = requested reg chain e"
| "requested reg chain (LabeledStatement tag label body) = requested reg chain body"
| "requested reg chain (BlockStatement tag body) =
     (if has reg (tag # chain) then [] else requested_list reg (tag # chain) body)"
| "requested reg chain (VariableDeclaration kind ds) = requested_list reg chain ds"
| "requested reg chain (VariableDeclarator i init) =
     requested reg chain i @ requested reg chain init"
| "requested reg chain (GetSymbolFunction g) = []"
| "requested reg chain (Other ty children) = requested_list reg chain children"
| "requested_list reg chain [] = []"
| "requested_list reg chain (x # xs) = requested reg chain x @ requested_list reg chain xs"

fun resolved :: "(string \<Rightarrow> string) \<Rightarrow> traitNamespaces \<Rightarrow> nat list \<Rightarrow> node \<Rightarrow> node"
  and resolved_list :: "(string \<Rightarrow> string) \<Rightarrow> traitNamespaces \<Rightarrow> nat list \<Rightarrow> node list \<Rightarrow> node list" where
  "resolved ident reg chain (Identifier n) = Identifier n"
| "resolved ident reg chain (StringLiteral v) = StringLiteral v"
| "resolved ident reg chain (TemplateElement r c t) = TemplateElement r c t"
| "resolved ident reg chain (MemberExpression obj name) =
     (case marker_object obj of
        Some obj0 \<Rightarrow> ComputedMemberExpression (resolved ident reg chain obj0) (Identifier (ident name))
      | None \<Rightarrow> MemberExpression (resolved ident reg chain obj) name)"
| "resolved ident reg chain (ComputedMemberExpression obj prop) =
     (case marker_object obj of
        Some obj0 \<Rightarrow> ComputedMemberExpression (resolved ident reg chain obj0) (resolved ident reg chain prop)
      | None \<Rightarrow> ComputedMemberExpression (resolved ident reg chain obj) (resolved ident reg chain prop))"
| "resolved ident reg chain (CallExpression callee args) =
     CallExpression (resolved ident reg chain callee) (resolved_list ident reg chain args)"
| "resolved ident reg chain (ExpressionStatement e) = ExpressionStatement (resolved ident reg chain e)"
| "resolved ident reg chain (LabeledStatement tag label body) =
     LabeledStatement tag label (resolved ident reg chain body)"
| "resolved ident reg chain (BlockStatement tag body) =
     (if has reg (tag # chain) then BlockStatement tag body
      else BlockStatement tag (resolved_list ident reg (tag # chain) body))"
| "resolved ident reg chain (VariableDeclaration kind ds) =
     VariableDeclaration kind (resolved_list ident reg chain ds)"
| "resolved ident reg chain (VariableDeclarator i init) =
     VariableDeclarator (resolved ident reg chain i) (resolved ident reg chain init)"
| "resolved ident reg chain (GetSymbolFunction g) = GetSymbolFunction g"
| "resolved ident reg chain (Other ty children) = Other ty (resolved_list ident reg chain children)"
| "resolved_list ident reg chain [] = []"
| "resolved_list ident reg chain (x # xs) =
     resolved ident reg chain x # resolved_list ident reg chain xs"

definition agrees :: "(string \<Rightarrow> string) \<Rightarrow> (string \<times> string) list \<Rightarrow> bool" where
  "agrees ident syms \<longleftrightarrow> (\<forall>name v. map_of syms name = Some v \<longrightarrow> ident name = v)"

definition extends :: "TraitNamespace \<Rightarrow> TraitNamespace \<Rightarrow> bool" where
  "extends ns' ns \<longleftrightarrow>
     (\<exists>ext. symbols ns' = symbols ns @ ext) \<and>
     path ns' = path ns \<and> blockPath ns' = blockPath ns \<and> providers ns' = providers ns"

lemma extends_refl: "extends ns ns"
  by (simp add: extends_def)

lemma extends_trans: "extends ns2 ns1 \<Longrightarrow> extends ns1 ns \<Longrightarrow> extends ns2 ns"
  by (auto simp: extends_def)

lemma agrees_extends: "agrees ident (symbols ns') \<Longrightarrow> extends ns' ns \<Longrightarrow> agrees ident (symbols ns)"
  by (auto simp: agrees_def extends_def)

lemma provideSymbol_spec:
  assumes "provideSymbol gen (ns, uids) name = (ident, ns', uids')"
  shows "map_of (symbols ns') name = Some ident"
    and "extends ns' ns"
    and "set (map fst (symbols ns')) = insert name (set (map fst (symbols ns)))"
    and "distinct (map fst (symbols ns)) \<Longrightarrow> distinct (map fst (symbols ns'))"
proof -
  show "map_of (symbols ns') name = Some ident"
    using assms by (auto simp: provideSymbol_def Let_def map_add_def split: option.splits)
  show "extends ns' ns"
    using assms by (auto simp: provideSymbol_def Let_def extends_def split: option.splits)
  show "set (map fst (symbols ns')) = insert name (set (map fst (symbols ns)))"
    using assms by (auto simp: provideSymbol_def Let_def split: option.splits dest: map_of_SomeD
        intro: rev_image_eqI)
  show "distinct (map fst (symbols ns)) \<Longrightarrow> distinct (map fst (symbols ns'))"
    using assms by (auto simp: provideSymbol_def Let_def map_of_eq_None_iff split: option.splits)
qed

definition follows :: "TraitNamespace \<Rightarrow> TraitNamespace \<Rightarrow> string list \<Rightarrow> bool" where
  "follows ns' ns names \<longleftrightarrow>
     extends ns' ns \<and>
     set (map fst (symbols ns')) = set (map fst (symbols ns)) \<union> set names \<and>
     (distinct (map fst (symbols ns)) \<longrightarrow> distinct (map fst (symbols ns')))"

lemma follows_refl: "follows ns ns []"
  by (simp add: follows_def extends_refl)

lemma follows_trans:
  "follows ns1 ns names1 \<Longrightarrow> follows ns2 ns1 names2 \<Longrightarrow> follows ns2 ns (names1 @ names2)"
  unfolding follows_def using extends_trans by auto

lemma follows_extends: "follows ns' ns names \<Longrightarrow> extends ns' ns"
  by (simp add: follows_def)

lemma follows_provideSymbol:
  assumes "provideSymbol gen (ns, uids) name = (ident, ns', uids')"
  shows "follows ns' ns [name]"
  using provideSymbol_spec(2-4) [OF assms] by (simp add: follows_def)

lemma rewrite_spec:
  "rewrite gen reg chain n st = Inr (n', st') \<Longrightarrow>
     follows (fst st') (fst st) (requested reg chain n) \<and>
     (\<forall>ident. agrees ident (symbols (fst st')) \<longrightarrow> n' = resolved ident reg chain n)"
  "rewrite_list gen reg chain xs st = Inr (xs', st') \<Longrightarrow>
     follows (fst st') (fst st) (requested_list reg chain xs) \<and>
     (\<forall>ident. agrees ident (symbols (fst st')) \<longrightarrow> xs' = resolved_list ident reg chain xs)"
proof (induction gen reg chain n st and gen reg chain xs st
        arbitrary: n' st' and xs' st'
        rule: rewrite_rewrite_list.induct)
  case (4 gen reg chain obj name st)
  show ?case
  proof (cases "marker_object obj")
    case None
    with "4.prems" obtain obj' where r: "rewrite gen reg chain obj st = Inr (obj', st')"
      and n': "n' = MemberExpression obj' name"
      by (auto split: sum.splits if_splits)
    from "4.IH"(1) [OF None r] None n' show ?thesis by simp
  next
    case (Some obj0)
    with "4.prems" obtain obj0' st1 ident where
      r: "rewrite gen reg chain obj0 st = Inr (obj0', st1)"
      and p: "provideSymbol gen st1 name = (ident, st')"
      and n': "n' = ComputedMemberExpression obj0' (Identifier ident)"
      by (auto split: sum.splits if_splits prod.splits)
    note ih = "4.IH"(2) [OF Some r]
    from p have p': "provideSymbol gen (fst st1, snd st1) name = (ident, fst st', snd st')" by simp
    have f: "follows (fst st') (fst st1) [name]" by (rule follows_provideSymbol [OF p'])
    have "follows (fst st') (fst st) (requested reg chain (MemberExpression obj name))"
      using follows_trans [OF conjunct1 [OF ih] f] Some by simp
    moreover have "n' = resolved ident' reg chain (MemberExpression obj name)"
      if a: "agrees ident' (symbols (fst st'))" for ident'
    proof -
      from a provideSymbol_spec(1) [OF p'] have "ident' name = ident" by (simp add: agrees_def)
      moreover from a follows_extends [OF f] have "agrees ident' (symbols (fst st1))"
        by (rule agrees_extends)
      ultimately show ?thesis using ih n' Some by simp
    qed
    ultimately show ?thesis by blast
  qed
next
  case (5 gen reg chain obj prp st)
  show ?case
  proof (cases "marker_object obj")
    case None
    with "5.prems" obtain obj' st1 prop' where
      r1: "rewrite gen reg chain obj st = Inr (obj', st1)"
      and r2: "rewrite gen reg chain prp st1 = Inr (prop', st')"
      and n': "n' = ComputedMemberExpression obj' prop'"
      by (auto split: sum.splits)
    note ih1 = "5.IH"(1) [OF None r1]
    note ih2 = "5.IH"(2) [OF None r1 refl r2]
    show ?thesis using ih1 ih2 None n' follows_trans [OF conjunct1 [OF ih1] conjunct1 [OF ih2]]
      by (auto dest: agrees_extends follows_extends)
  next
    case (Some obj0)
    with "5.prems" obtain obj' st1 prop' where
      r1: "rewrite gen reg chain obj0 st = Inr (obj', st1)"
      and r2: "rewrite gen reg chain prp st1 = Inr (prop', st')"
      and n': "n' = ComputedMemberExpression obj' prop'"
      by (auto split: sum.splits)
    note ih1 = "5.IH"(3) [OF Some r1]
    note ih2 = "5.IH"(4) [OF Some r1 refl r2]
    show ?thesis using ih1 ih2 Some n' follows_trans [OF conjunct1 [OF ih1] conjunct1 [OF ih2]]
      by (auto dest: agrees_extends follows_extends)
  qed
next
  case (6 gen reg chain callee args st)
  then obtain c' st1 a' where
    r1: "rewrite gen reg chain callee st = Inr (c', st1)"
    and r2: "rewrite_list gen reg chain args st1 = Inr (a', st')"
    and n': "n' = CallExpression c' a'"
    by (auto split: sum.splits)
  note ih1 = "6.IH"(1) [OF r1]
  note ih2 = "6.IH"(2) [OF r1 refl r2]
  show ?case using ih1 ih2 n' follows_trans [OF conjunct1 [OF ih1] conjunct1 [OF ih2]]
    by (auto dest: agrees_extends follows_extends)
next
  case (11 gen reg chain i init st)
  then obtain c' st1 a' where
    r1: "rewrite gen reg chain i st = Inr (c', st1)"
    and r2: "rewrite gen reg chain init st1 = Inr (a', st')"
    and n': "n' = VariableDeclarator c' a'"
    by (auto split: sum.splits)
  note ih1 = "11.IH"(1) [OF r1]
  note ih2 = "11.IH"(2) [OF r1 refl r2]
  show ?case using ih1 ih2 n' follows_trans [OF conjunct1 [OF ih1] conjunct1 [OF ih2]]
    by (auto dest: agrees_extends follows_extends)
next
  case (15 gen reg chain x xs st)
  then obtain c' st1 a' where
    r1: "rewrite gen reg chain x st = Inr (c', st1)"
    and r2: "rewrite_list gen reg chain xs st1 = Inr (a', st')"
    and n': "xs' = c' # a'"
    by (auto split: sum.splits)
  note ih1 = "15.IH"(1) [OF r1]
  note ih2 = "15.IH"(2) [OF r1 refl r2]
  show ?case using ih1 ih2 n' follows_trans [OF conjunct1 [OF ih1] conjunct1 [OF ih2]]
    by (auto dest: agrees_extends follows_extends)
qed (auto simp: follows_refl split: sum.splits if_splits)


text \<open>\<^verbatim>\<open>a.*value; b.*value;\<close>: two accesses to one trait name.\<close>

definition two_accesses :: "node list" where
  "two_accesses =
     [ExpressionStatement (MemberExpression (MemberExpression (Identifier ''a'') ''_Straits'') ''value''),
      ExpressionStatement (MemberExpression (MemberExpression (Identifier ''b'') ''_Straits'') ''value'')]"

section \<open>The pass as a whole\<close>

lemma register_nonempty: "register prog reg chain tag = Inr reg' \<Longrightarrow> reg' \<noteq> []"
  by (cases reg) (auto simp: register_def split: sum.splits option.splits if_splits)

lemma collect_nonempty:
  "collect prog chain inBlock n reg = Inr reg' \<Longrightarrow>
     reg \<noteq> [] \<or> provider_statements n \<noteq> [] \<Longrightarrow> reg' \<noteq> []"
  "collect_list prog chain inBlock ns reg = Inr reg' \<Longrightarrow>
     reg \<noteq> [] \<or> provider_statements_list ns \<noteq> [] \<Longrightarrow> reg' \<noteq> []"
proof (induction prog chain inBlock n reg and prog chain inBlock ns reg
        arbitrary: reg' and reg' rule: collect_collect_list.induct)
  case (8 prog chain inBlock tag label body reg)
  show ?case
  proof (cases "label = straitsProvider")
    case False
    with 8 show ?thesis by simp
  next
    case True
    with "8.prems" obtain reg1 where a: "register prog reg chain tag = Inr reg1"
      and b: "collect prog chain False body reg1 = Inr reg'" and ib: inBlock
      by (auto split: if_splits sum.splits)
    from register_nonempty [OF a] "8.IH"(2) [OF _ _ a b] True ib show ?thesis by simp
  qed
qed (auto split: sum.splits)

lemma collect_program_empty_iff:
  assumes "collect_program prog = Inr reg"
  shows "reg = [] \<longleftrightarrow> provider_statements_list (body_of prog) = []"
proof
  assume "reg = []"
  with collect_nonempty(2) [OF assms [unfolded collect_program_def]]
  show "provider_statements_list (body_of prog) = []" by blast
next
  assume "provider_statements_list (body_of prog) = []"
  then have "collect_program prog = Inr []"
    by (simp add: collect_program_def collect_no_provider)
  with assms show "reg = []" by simp
qed

lemma pass_Inr_cases:
  assumes "pass gen prog = Inr out"
  obtains (no_providers) "collect_program prog = Inr []" and "finalCheck prog = None" and "out = prog"
  | (providers) reg inherited prog2 rewritten uids where
      "collect_program prog = Inr reg" and "reg \<noteq> []"
      and "inherit (unshiftContainer (GetSymbolFunction (gen [] [] ''getSymbol'')) prog) reg = Inr inherited"
      and "rewrite_all gen (map fst inherited)
             (unshiftContainer (GetSymbolFunction (gen [] [] ''getSymbol'')) prog, inherited,
              [gen [] [] ''getSymbol'']) = Inr (prog2, rewritten, uids)"
      and "out = clean_program (foldl remove (foldl (finalize (gen [] [] ''getSymbol'')) prog2 (map snd rewritten))
                 (map snd rewritten))"
      and "finalCheck out = None"
  using assms unfolding pass_def Let_def
  by (auto split: sum.splits if_splits option.splits prod.splits)

subsection \<open>The literal text patcher\<close>

text \<open>
  \<open>string_literals\<close> lists the texts of the string literals of a tree in traversal
  order; \<open>skeleton\<close> is the tree with the text of every string literal and template
  element blanked, that is, everything of the tree but the literal texts.
\<close>

fun string_literals :: "node \<Rightarrow> string list"
  and string_literals_list :: "node list \<Rightarrow> string list" where
  "string_literals (Identifier n) = []"
| "string_literals (StringLiteral v) = [v]"
| "string_literals (TemplateElement r c t) = []"
| "string_literals (MemberExpression obj name) = string_literals obj"
| "string_literals (ComputedMemberExpression obj prop) = string_literals obj @ string_literals prop"
| "string_literals (CallExpression callee args) = string_literals callee @ string_literals_list args"
| "string_literals (ExpressionStatement e) = string_literals e"
| "string_literals (LabeledStatement tag label body) = string_literals body"
| "string_literals (BlockStatement tag body) = string_literals_list body"
| "string_literals (VariableDeclaration kind ds) = string_literals_list ds"
| "string_literals (VariableDeclarator i init) = string_literals i @ string_literals init"
| "string_literals (GetSymbolFunction g) = []"
| "string_literals (Other ty children) = string_literals_list children"
| "string_literals_list [] = []"
| "string_literals_list (x # xs) = string_literals x @ string_literals_list xs"

fun skeleton :: "node \<Rightarrow> node"
  and skeleton_list :: "node list \<Rightarrow> node list" where
  "skeleton (Identifier n) = Identifier n"
| "skeleton (StringLiteral v) = StringLiteral []"
| "skeleton (TemplateElement r c t) = TemplateElement [] [] t"
| "skeleton (MemberExpression obj name) = MemberExpression (skeleton obj) name"
| "skeleton (ComputedMemberExpression obj prop) = ComputedMemberExpression (skeleton obj) (skeleton prop)"
| "skeleton (CallExpression callee args) = CallExpression (skeleton callee) (skeleton_list args)"
| "skeleton (ExpressionStatement e) = ExpressionStatement (skeleton e)"
| "skeleton (LabeledStatement tag label body) = LabeledStatement tag label (skeleton body)"
| "skeleton (BlockStatement tag body) = BlockStatement tag (skeleton_list body)"
| "skeleton (VariableDeclaration kind ds) = VariableDeclaration kind (skeleton_list ds)"
| "skeleton (VariableDeclarator i init) = VariableDeclarator (skeleton i) (skeleton init)"
| "skeleton (GetSymbolFunction g) = GetSymbolFunction g"
| "skeleton (Other ty children) = Other ty (skeleton_list children)"
| "skeleton_list [] = []"
| "skeleton_list (x # xs) = skeleton x # skeleton_list xs"

definition literal_with_provider :: program where
  "literal_with_provider = Program [
     LabeledStatement 1 ''_StraitsProvider'' (ExpressionStatement (Identifier ''symbols1'')),
     ExpressionStatement (CallExpression (Identifier ''log'') [StringLiteral ''a._Straits.b''])]"

lemma clean_string_literals:
  "string_literals (clean n) = map cleanString (string_literals n)"
  "string_literals_list (clean_list ns) = map cleanString (string_literals_list ns)"
  by (induction n and ns rule: clean_clean_list.induct) auto

lemma clean_skeleton:
  "skeleton (clean n) = skeleton n"
  "skeleton_list (clean_list ns) = skeleton_list ns"
  by (induction n and ns rule: clean_clean_list.induct) auto

lemma cleanString_Straits: "cleanString ''._Straits'' = ''.*''"
  by (simp add: cleanString_def drop_dot_def)

lemma cleanString_Straits_dot: "cleanString ''._Straits.'' = ''.*''"
  by (simp add: cleanString_def drop_dot_def)

lemma cleanString_StraitsProvider: "cleanString ''_StraitsProvider:'' = ''use traits * from''"
  by (simp add: cleanString_def)

lemma pass_literal_with_provider:
  "pass demo_uid literal_with_provider =
     Inr (Program [GetSymbolFunction ''_getSymbol'',
            ExpressionStatement (CallExpression (Identifier ''log'') [StringLiteral ''a.*b''])])"
  by code_simp

text \<open>
  \<open>free_of_Straits s\<close> and \<open>free_of_StraitsProvider s\<close> say that the text \<open>s\<close> holds no
  \<^verbatim>\<open>._Straits\<close> and no \<^verbatim>\<open>_StraitsProvider:\<close>. A patched text holds neither, so
  patching a text twice is patching it once: the visit Babel pays to the literal that
  replaced another one changes nothing.
\<close>

fun free_of_Straits :: "string \<Rightarrow> bool" where
  "free_of_Straits [] = True"
| "free_of_Straits (c # cs) = (take 9 (c # cs) \<noteq> ''._Straits'' \<and> free_of_Straits cs)"

fun free_of_StraitsProvider :: "string \<Rightarrow> bool" where
  "free_of_StraitsProvider [] = True"
| "free_of_StraitsProvider (c # cs) =
     (take 17 (c # cs) \<noteq> ''_StraitsProvider:'' \<and> free_of_StraitsProvider cs)"


lemma replace_Straits_match:
  "take 9 (c # cs) = ''._Straits'' \<Longrightarrow>
     replace_Straits (c # cs) = ''.*'' @ replace_Straits (drop_dot (drop 8 cs))"
  by (simp only: replace_Straits.simps if_True simp_thms)

lemma replace_Straits_skip:
  "take 9 (c # cs) \<noteq> ''._Straits'' \<Longrightarrow> replace_Straits (c # cs) = c # replace_Straits cs"
  by (simp only: replace_Straits.simps if_False simp_thms)

lemma replace_StraitsProvider_match:
  "take 17 (c # cs) = ''_StraitsProvider:'' \<Longrightarrow>
     replace_StraitsProvider (c # cs) = ''use traits * from'' @ replace_StraitsProvider (drop 16 cs)"
  by (simp only: replace_StraitsProvider.simps if_True simp_thms)

lemma replace_StraitsProvider_skip:
  "take 17 (c # cs) \<noteq> ''_StraitsProvider:'' \<Longrightarrow>
     replace_StraitsProvider (c # cs) = c # replace_StraitsProvider cs"
  by (simp only: replace_StraitsProvider.simps if_False simp_thms)

lemma replace_Straits_free: "free_of_Straits s \<Longrightarrow> replace_Straits s = s"
proof (induction s)
  case Nil
  then show ?case by simp
next
  case (Cons c cs)
  then have "take 9 (c # cs) \<noteq> ''._Straits''" and "replace_Straits cs = cs" by simp_all
  with replace_Straits_skip [of c cs] show ?case by simp
qed

lemma replace_StraitsProvider_free:
  "free_of_StraitsProvider s \<Longrightarrow> replace_StraitsProvider s = s"
proof (induction s)
  case Nil
  then show ?case by simp
next
  case (Cons c cs)
  then have "take 17 (c # cs) \<noteq> ''_StraitsProvider:''" and "replace_StraitsProvider cs = cs"
    by simp_all
  with replace_StraitsProvider_skip [of c cs] show ?case by simp
qed

lemma replace_Straits_copies:
  "CHR ''.'' \<notin> set (take n (replace_Straits s)) \<Longrightarrow> take n (replace_Straits s) = take n s"
proof (induction s arbitrary: n rule: replace_Straits.induct)
  case 1
  then show ?case by simp
next
  case (2 c cs)
  show ?case
  proof (cases n)
    case 0
    then show ?thesis by simp
  next
    case (Suc m)
    show ?thesis
    proof (cases "take 9 (c # cs) = ''._Straits''")
      case True
      from "2.prems" show ?thesis
        unfolding replace_Straits_match [OF True] Suc by simp
    next
      case False
      then have e: "replace_Straits (c # cs) = c # replace_Straits cs"
        by (rule replace_Straits_skip)
      from "2.prems" have "CHR ''.'' \<notin> set (take m (replace_Straits cs))"
        unfolding e Suc by simp
      from "2.IH"(2) [OF False this] show ?thesis
        unfolding e Suc by simp
    qed
  qed
qed

lemma replace_StraitsProvider_copies:
  "CHR ''u'' \<notin> set (take n (replace_StraitsProvider s)) \<Longrightarrow>
     take n (replace_StraitsProvider s) = take n s"
proof (induction s arbitrary: n rule: replace_StraitsProvider.induct)
  case 1
  then show ?case by simp
next
  case (2 c cs)
  show ?case
  proof (cases n)
    case 0
    then show ?thesis by simp
  next
    case (Suc m)
    show ?thesis
    proof (cases "take 17 (c # cs) = ''_StraitsProvider:''")
      case True
      from "2.prems" show ?thesis
        unfolding replace_StraitsProvider_match [OF True] Suc by simp
    next
      case False
      then have e: "replace_StraitsProvider (c # cs) = c # replace_StraitsProvider cs"
        by (rule replace_StraitsProvider_skip)
      from "2.prems" have "CHR ''u'' \<notin> set (take m (replace_StraitsProvider cs))"
        unfolding e Suc by simp
      from "2.IH"(2) [OF False this] show ?thesis
        unfolding e Suc by simp
    qed
  qed
qed

lemma Straits_after_replace:
  assumes "take 9 (c # replace_Straits cs) = ''._Straits''"
  shows "take 9 (c # cs) = ''._Straits''"
proof -
  from assms have c: "c = CHR ''.''" and t: "take 8 (replace_Straits cs) = ''_Straits''"
    by (simp_all add: take_Cons')
  from t have "CHR ''.'' \<notin> set (take 8 (replace_Straits cs))" by simp
  from replace_Straits_copies [OF this] t have "take 8 cs = ''_Straits''" by simp
  with c show ?thesis by (simp add: take_Cons')
qed

lemma replace_Straits_is_free: "free_of_Straits (replace_Straits s)"
proof (induction s rule: replace_Straits.induct)
  case 1
  then show ?case by simp
next
  case (2 c cs)
  show ?case
  proof (cases "take 9 (c # cs) = ''._Straits''")
    case True
    then have e: "replace_Straits (c # cs) = ''.*'' @ replace_Straits (drop_dot (drop 8 cs))"
      by (rule replace_Straits_match)
    from "2.IH"(1) [OF True] show ?thesis unfolding e by simp
  next
    case False
    then have e: "replace_Straits (c # cs) = c # replace_Straits cs"
      by (rule replace_Straits_skip)
    from False Straits_after_replace [of c cs]
    have "take 9 (c # replace_Straits cs) \<noteq> ''._Straits''" by blast
    with "2.IH"(2) [OF False] show ?thesis unfolding e by simp
  qed
qed


lemma StraitsProvider_after_replace:
  assumes "take 17 (c # replace_StraitsProvider cs) = ''_StraitsProvider:''"
  shows "take 17 (c # cs) = ''_StraitsProvider:''"
proof -
  from assms have c: "c = CHR ''_''"
    and t: "take 16 (replace_StraitsProvider cs) = ''StraitsProvider:''"
    by (simp_all add: take_Cons')
  from t have "CHR ''u'' \<notin> set (take 16 (replace_StraitsProvider cs))" by simp
  from replace_StraitsProvider_copies [OF this] t have "take 16 cs = ''StraitsProvider:''" by simp
  with c show ?thesis by (simp add: take_Cons')
qed

lemma replace_StraitsProvider_is_free: "free_of_StraitsProvider (replace_StraitsProvider s)"
proof (induction s rule: replace_StraitsProvider.induct)
  case 1
  then show ?case by simp
next
  case (2 c cs)
  show ?case
  proof (cases "take 17 (c # cs) = ''_StraitsProvider:''")
    case True
    from "2.IH"(1) [OF True] show ?thesis
      unfolding replace_StraitsProvider_match [OF True] by simp
  next
    case False
    from False StraitsProvider_after_replace [of c cs]
    have "take 17 (c # replace_StraitsProvider cs) \<noteq> ''_StraitsProvider:''" by blast
    with "2.IH"(2) [OF False] show ?thesis
      unfolding replace_StraitsProvider_skip [OF False] by simp
  qed
qed

lemma free_of_Straits_drop: "free_of_Straits s \<Longrightarrow> free_of_Straits (drop n s)"
proof (induction s arbitrary: n)
  case Nil
  then show ?case by simp
next
  case (Cons c cs)
  then show ?case by (cases n) simp_all
qed

lemma Straits_after_replace_StraitsProvider:
  assumes "take 9 (c # replace_StraitsProvider cs) = ''._Straits''"
  shows "take 9 (c # cs) = ''._Straits''"
proof -
  from assms have c: "c = CHR ''.''" and t: "take 8 (replace_StraitsProvider cs) = ''_Straits''"
    by (simp_all add: take_Cons')
  from t have "CHR ''u'' \<notin> set (take 8 (replace_StraitsProvider cs))" by simp
  from replace_StraitsProvider_copies [OF this] t have "take 8 cs = ''_Straits''" by simp
  with c show ?thesis by (simp add: take_Cons')
qed

lemma replace_StraitsProvider_keeps_free:
  "free_of_Straits s \<Longrightarrow> free_of_Straits (replace_StraitsProvider s)"
proof (induction s rule: replace_StraitsProvider.induct)
  case 1
  then show ?case by simp
next
  case (2 c cs)
  from "2.prems" have h: "take 9 (c # cs) \<noteq> ''._Straits''" and f: "free_of_Straits cs"
    by simp_all
  show ?case
  proof (cases "take 17 (c # cs) = ''_StraitsProvider:''")
    case True
    from f have "free_of_Straits (drop 16 cs)" by (rule free_of_Straits_drop)
    from "2.IH"(1) [OF True this] show ?thesis
      unfolding replace_StraitsProvider_match [OF True] by simp
  next
    case False
    from h Straits_after_replace_StraitsProvider [of c cs]
    have "take 9 (c # replace_StraitsProvider cs) \<noteq> ''._Straits''" by blast
    with "2.IH"(2) [OF False f] show ?thesis
      unfolding replace_StraitsProvider_skip [OF False] by simp
  qed
qed

lemma cleanString_idempotent: "cleanString (cleanString s) = cleanString s"
proof -
  have "free_of_Straits (cleanString s)"
    unfolding cleanString_def
    by (rule replace_StraitsProvider_keeps_free [OF replace_Straits_is_free])
  then have "replace_Straits (cleanString s) = cleanString s"
    by (rule replace_Straits_free)
  moreover have "free_of_StraitsProvider (cleanString s)"
    unfolding cleanString_def by (rule replace_StraitsProvider_is_free)
  then have "replace_StraitsProvider (cleanString s) = cleanString s"
    by (rule replace_StraitsProvider_free)
  ultimately show ?thesis by (simp add: cleanString_def)
qed

lemma clean_idempotent:
  "clean (clean n) = clean n"
  "clean_list (clean_list ns) = clean_list ns"
  by (induction n and ns rule: clean_clean_list.induct)
     (auto simp: cleanString_idempotent)

text \<open>
  In a unit with a provider statement the patcher runs over the whole tree: every
  string literal of the result holds a patched text, free of both spellings.
\<close>

lemma literals_of_result_patched:
  assumes "pass gen prog = Inr out" and "provider_statements_list (body_of prog) \<noteq> []"
    and "s \<in> set (string_literals_list (body_of out))"
  shows "free_of_Straits s \<and> free_of_StraitsProvider s"
  using assms(1)
proof (cases rule: pass_Inr_cases)
  case no_providers
  with collect_program_empty_iff [OF no_providers(1)] assms(2) show ?thesis by simp
next
  case (providers reg inherited prog2 rewritten uids)
  from assms(3) obtain s0 where "s = cleanString s0"
    unfolding providers(5) by (auto simp: clean_program_def clean_string_literals)
  moreover have "free_of_Straits (cleanString s0)"
    unfolding cleanString_def
    by (rule replace_StraitsProvider_keeps_free [OF replace_Straits_is_free])
  moreover have "free_of_StraitsProvider (cleanString s0)"
    unfolding cleanString_def by (rule replace_StraitsProvider_is_free)
  ultimately show ?thesis by simp
qed

text \<open>
  C8. The patcher does not run in every unit. When the unit holds no provider statement
  the pass returns right after the final check (the source marks that return with
  \<^verbatim>\<open>TODO: actually, we should fix `.*` anyways\<close>), before the last traversal. On
  \<^verbatim>\<open>log("a._Straits.b");\<close> the pass succeeds, whatever the name generator, and
  returns the unit as it is: the string literal still holds \<^verbatim>\<open>a._Straits.b\<close>, where
  the patcher would have put \<^verbatim>\<open>a.*b\<close>.
\<close>

theorem literal_kept_without_provider:
  "pass gen literal_only = Inr literal_only \<and>
   string_literals_list (body_of literal_only) = [''a._Straits.b''] \<and>
   cleanString ''a._Straits.b'' = ''a.*b''"
  by (simp add: pass_def eval_defs literal_only_def finalCheck_def cleanString_def drop_dot_def)

subsection \<open>The injected resolver function\<close>

text \<open>\<open>resolvers\<close> lists the injected resolver functions of a tree (their names).\<close>

fun resolvers :: "node \<Rightarrow> string list"
  and resolvers_list :: "node list \<Rightarrow> string list" where
  "resolvers (Identifier n) = []"
| "resolvers (StringLiteral v) = []"
| "resolvers (TemplateElement r c t) = []"
| "resolvers (MemberExpression obj name) = resolvers obj"
| "resolvers (ComputedMemberExpression obj prop) = resolvers obj @ resolvers prop"
| "resolvers (CallExpression callee args) = resolvers callee @ resolvers_list args"
| "resolvers (ExpressionStatement e) = resolvers e"
| "resolvers (LabeledStatement tag label body) = resolvers body"
| "resolvers (BlockStatement tag body) = resolvers_list body"
| "resolvers (VariableDeclaration kind ds) = resolvers_list ds"
| "resolvers (VariableDeclarator i init) = resolvers i @ resolvers init"
| "resolvers (GetSymbolFunction g) = [g]"
| "resolvers (Other ty children) = resolvers_list children"
| "resolvers_list [] = []"
| "resolvers_list (x # xs) = resolvers x @ resolvers_list xs"




lemma rewrite_resolvers:
  "rewrite gen reg chain n st = Inr (n', st') \<Longrightarrow> resolvers n' = resolvers n"
  "rewrite_list gen reg chain xs st = Inr (xs', st') \<Longrightarrow> resolvers_list xs' = resolvers_list xs"
proof (induction gen reg chain n st and gen reg chain xs st
        arbitrary: n' st' and xs' st'
        rule: rewrite_rewrite_list.induct)
  case (4 gen reg chain obj name st)
  then show ?case
    by (cases "marker_object obj")
       (auto simp: marker_object_eq split: sum.splits if_splits prod.splits)
next
  case (5 gen reg chain obj prp st)
  then show ?case
    by (cases "marker_object obj")
       (auto simp: marker_object_eq split: sum.splits if_splits prod.splits)
qed (auto split: sum.splits if_splits)

lemma traverse_at_resolvers:
  "traverse_at gen reg target chain n st = Inr (n', st') \<Longrightarrow> resolvers n' = resolvers n"
  "traverse_at_list gen reg target chain xs st = Inr (xs', st') \<Longrightarrow> resolvers_list xs' = resolvers_list xs"
proof (induction gen reg target chain n st and gen reg target chain xs st
        arbitrary: n' st' and xs' st'
        rule: traverse_at_traverse_at_list.induct)
qed (auto split: sum.splits if_splits dest: rewrite_resolvers)

lemma blockPath_traverse_resolvers:
  assumes "blockPath_traverse gen reg target prog st = Inr (prog', st')"
  shows "resolvers_list (body_of prog') = resolvers_list (body_of prog)"
  using assms rewrite_resolvers(2) [of gen reg "[]" "body_of prog" st]
    traverse_at_resolvers(2) [of gen reg target "[]" "body_of prog" st]
  by (auto simp: blockPath_traverse_def split: sum.splits if_splits)





















section \<open>Trait accesses outside every namespace\<close>

text \<open>
  \<open>block_tags\<close> and \<open>labeled_tags\<close> list the identities of the blocks and of the labeled
  statements of a tree; in a tree from the parser no identity occurs twice
  (\<open>well_formed\<close>). \<open>unguarded\<close> says that a tree holds an identifier named \<^verbatim>\<open>_Straits\<close>
  outside every block that has a provider statement of its own.
\<close>

fun block_tags :: "node \<Rightarrow> nat list"
  and block_tags_list :: "node list \<Rightarrow> nat list" where
  "block_tags (Identifier n) = []"
| "block_tags (StringLiteral v) = []"
| "block_tags (TemplateElement r c t) = []"
| "block_tags (MemberExpression obj name) = block_tags obj"
| "block_tags (ComputedMemberExpression obj prop) = block_tags obj @ block_tags prop"
| "block_tags (CallExpression callee args) = block_tags callee @ block_tags_list args"
| "block_tags (ExpressionStatement e) = block_tags e"
| "block_tags (LabeledStatement tag label body) = block_tags body"
| "block_tags (BlockStatement tag body) = tag # block_tags_list body"
| "block_tags (VariableDeclaration kind ds) = block_tags_list ds"
| "block_tags (VariableDeclarator i init) = block_tags i @ block_tags init"
| "block_tags (GetSymbolFunction g) = []"
| "block_tags (Other ty children) = block_tags_list children"
| "block_tags_list [] = []"
| "block_tags_list (x # xs) = block_tags x @ block_tags_list xs"

fun labeled_tags :: "node \<Rightarrow> nat list"
  and labeled_tags_list :: "node list \<Rightarrow> nat list" where
  "labeled_tags (Identifier n) = []"
| "labeled_tags (StringLiteral v) = []"
| "labeled_tags (TemplateElement r c t) = []"
| "labeled_tags (MemberExpression obj name) = labeled_tags obj"
| "labeled_tags (ComputedMemberExpression obj prop) = labeled_tags obj @ labeled_tags prop"
| "labeled_tags (CallExpression callee args) = labeled_tags callee @ labeled_tags_list args"
| "labeled_tags (ExpressionStatement e) = labeled_tags e"
| "labeled_tags (LabeledStatement tag label body) = tag # labeled_tags body"
| "labeled_tags (BlockStatement tag body) = labeled_tags_list body"
| "labeled_tags (VariableDeclaration kind ds) = labeled_tags_list ds"
| "labeled_tags (VariableDeclarator i init) = labeled_tags i @ labeled_tags init"
| "labeled_tags (GetSymbolFunction g) = []"
| "labeled_tags (Other ty children) = labeled_tags_list children"
| "labeled_tags_list [] = []"
| "labeled_tags_list (x # xs) = labeled_tags x @ labeled_tags_list xs"

definition well_formed :: "program \<Rightarrow> bool" where
  "well_formed prog \<longleftrightarrow>
     distinct (block_tags_list (body_of prog)) \<and> distinct (labeled_tags_list (body_of prog))"

text \<open>The provider statements that belong to a block: those of its statements, nested blocks left out.\<close>

fun own_statements :: "node \<Rightarrow> nat list"
  and own_statements_list :: "node list \<Rightarrow> nat list" where
  "own_statements (Identifier n) = []"
| "own_statements (StringLiteral v) = []"
| "own_statements (TemplateElement r c t) = []"
| "own_statements (MemberExpression obj name) = own_statements obj"
| "own_statements (ComputedMemberExpression obj prop) = own_statements obj @ own_statements prop"
| "own_statements (CallExpression callee args) = own_statements callee @ own_statements_list args"
| "own_statements (ExpressionStatement e) = own_statements e"
| "own_statements (LabeledStatement tag label body) =
     (if label = straitsProvider then [tag] else []) @ own_statements body"
| "own_statements (BlockStatement tag body) = []"
| "own_statements (VariableDeclaration kind ds) = own_statements_list ds"
| "own_statements (VariableDeclarator i init) = own_statements i @ own_statements init"
| "own_statements (GetSymbolFunction g) = []"
| "own_statements (Other ty children) = own_statements_list children"
| "own_statements_list [] = []"
| "own_statements_list (x # xs) = own_statements x @ own_statements_list xs"

fun unguarded :: "node \<Rightarrow> bool"
  and unguarded_list :: "node list \<Rightarrow> bool" where
  "unguarded (Identifier n) = (n = straits)"
| "unguarded (StringLiteral v) = False"
| "unguarded (TemplateElement r c t) = False"
| "unguarded (MemberExpression obj name) = (unguarded obj \<or> name = straits)"
| "unguarded (ComputedMemberExpression obj prop) = (unguarded obj \<or> unguarded prop)"
| "unguarded (CallExpression callee args) = (unguarded callee \<or> unguarded_list args)"
| "unguarded (ExpressionStatement e) = unguarded e"
| "unguarded (LabeledStatement tag label body) = (label = straits \<or> unguarded body)"
| "unguarded (BlockStatement tag body) = (own_statements_list body = [] \<and> unguarded_list body)"
| "unguarded (VariableDeclaration kind ds) = unguarded_list ds"
| "unguarded (VariableDeclarator i init) = (unguarded i \<or> unguarded init)"
| "unguarded (GetSymbolFunction g) = (g = straits)"
| "unguarded (Other ty children) = unguarded_list children"
| "unguarded_list [] = False"
| "unguarded_list (x # xs) = (unguarded x \<or> unguarded_list xs)"

definition unguarded_program :: "program \<Rightarrow> bool" where
  "unguarded_program prog \<longleftrightarrow>
     own_statements_list (body_of prog) = [] \<and> unguarded_list (body_of prog)"

text \<open>The tree outside the blocks whose paths are in \<open>K\<close>: the statements of those blocks are dropped.\<close>

fun erase :: "nat list set \<Rightarrow> nat list \<Rightarrow> node \<Rightarrow> node"
  and erase_list :: "nat list set \<Rightarrow> nat list \<Rightarrow> node list \<Rightarrow> node list" where
  "erase K chain (Identifier n) = Identifier n"
| "erase K chain (StringLiteral v) = StringLiteral v"
| "erase K chain (TemplateElement r c t) = TemplateElement r c t"
| "erase K chain (MemberExpression obj name) = MemberExpression (erase K chain obj) name"
| "erase K chain (ComputedMemberExpression obj prop) =
     ComputedMemberExpression (erase K chain obj) (erase K chain prop)"
| "erase K chain (CallExpression callee args) =
     CallExpression (erase K chain callee) (erase_list K chain args)"
| "erase K chain (ExpressionStatement e) = ExpressionStatement (erase K chain e)"
| "erase K chain (LabeledStatement tag label body) = LabeledStatement tag label (erase K chain body)"
| "erase K chain (BlockStatement tag body) =
     BlockStatement tag (if tag # chain \<in> K then [] else erase_list K (tag # chain) body)"
| "erase K chain (VariableDeclaration kind ds) = VariableDeclaration kind (erase_list K chain ds)"
| "erase K chain (VariableDeclarator i init) =
     VariableDeclarator (erase K chain i) (erase K chain init)"
| "erase K chain (GetSymbolFunction g) = GetSymbolFunction g"
| "erase K chain (Other ty children) = Other ty (erase_list K chain children)"
| "erase_list K chain [] = []"
| "erase_list K chain (x # xs) = erase K chain x # erase_list K chain xs"

definition erase_program :: "nat list set \<Rightarrow> program \<Rightarrow> node list" where
  "erase_program K prog = (if [] \<in> K then [] else erase_list K [] (body_of prog))"

lemma erase_identifiers:
  "set (identifiers (erase K chain n)) \<subseteq> set (identifiers n)"
  "set (identifiers_list (erase_list K chain xs)) \<subseteq> set (identifiers_list xs)"
  by (induction K chain n and K chain xs rule: erase_erase_list.induct) auto

lemma traverse_at_erase:
  "traverse_at gen reg target chain n st = Inr (n', st') \<Longrightarrow> target \<in> K \<Longrightarrow>
     erase K chain n' = erase K chain n"
  "traverse_at_list gen reg target chain xs st = Inr (xs', st') \<Longrightarrow> target \<in> K \<Longrightarrow>
     erase_list K chain xs' = erase_list K chain xs"
  by (induction gen reg target chain n st and gen reg target chain xs st
        arbitrary: n' st' and xs' st'
        rule: traverse_at_traverse_at_list.induct)
     (auto split: sum.splits if_splits)

lemma blockPath_traverse_erase:
  assumes "blockPath_traverse gen reg target prog st = Inr (prog', st')" and "target \<in> K"
  shows "erase_program K prog' = erase_program K prog"
proof (cases "target = []")
  case True
  with assms(2) show ?thesis by (simp add: erase_program_def)
next
  case False
  with assms(1) obtain body' where
    "traverse_at_list gen reg target [] (body_of prog) st = Inr (body', st')" and "prog' = Program body'"
    by (auto simp: blockPath_traverse_def split: sum.splits)
  with traverse_at_erase(2) [OF this(1) assms(2)] show ?thesis
    by (simp add: erase_program_def)
qed

definition anchors :: "traitNamespaces \<Rightarrow> nat set" where
  "anchors reg = path ` snd ` set reg"

lemma update_keys_present:
  "map_of reg k = Some v \<Longrightarrow> fst ` set (AList.update k v' reg) = fst ` set reg"
  by (auto simp: dom_update dest: map_of_SomeD intro: rev_image_eqI)

lemma set_update_subset: "set (AList.update k v reg) \<subseteq> insert (k, v) (set reg)"
  by (induction reg) auto

lemma anchors_update:
  assumes "map_of reg k = Some ns" and "path ns' = path ns"
  shows "anchors (AList.update k ns' reg) \<subseteq> anchors reg"
proof
  fix p assume "p \<in> anchors (AList.update k ns' reg)"
  then obtain k' v where kv: "(k', v) \<in> set (AList.update k ns' reg)" and p: "p = path v"
    by (auto simp: anchors_def)
  from assms(1) have "(k, ns) \<in> set reg" by (rule map_of_SomeD)
  then have a: "path ns \<in> anchors reg" by (force simp: anchors_def)
  from kv set_update_subset [of k ns' reg] have "(k', v) = (k, ns') \<or> (k', v) \<in> set reg"
    by blast
  then show "p \<in> anchors reg"
  proof
    assume "(k', v) = (k, ns')"
    with p assms(2) a show ?thesis by simp
  next
    assume "(k', v) \<in> set reg"
    with p show ?thesis by (force simp: anchors_def)
  qed
qed

lemma traverse_at_extends:
  "traverse_at gen reg target chain n st = Inr (n', st') \<Longrightarrow> extends (fst st') (fst st)"
  "traverse_at_list gen reg target chain xs st = Inr (xs', st') \<Longrightarrow> extends (fst st') (fst st)"
proof (induction gen reg target chain n st and gen reg target chain xs st
        arbitrary: n' st' and xs' st'
        rule: traverse_at_traverse_at_list.induct)
  case (9 gen reg target chain tag body st)
  then show ?case
    by (auto split: sum.splits if_splits dest!: rewrite_spec(2) follows_extends)
qed (fastforce simp: extends_refl split: sum.splits intro: extends_trans)+

lemma blockPath_traverse_path:
  assumes "blockPath_traverse gen reg target prog (ns, uids) = Inr (prog', ns', uids')"
  shows "path ns' = path ns"
proof -
  have "extends ns' ns"
    using assms rewrite_spec(2) [of gen reg "[]" "body_of prog" "(ns, uids)"]
      traverse_at_extends(2) [of gen reg target "[]" "body_of prog" "(ns, uids)"]
    by (auto simp: blockPath_traverse_def follows_def split: sum.splits if_splits)
  then show ?thesis by (simp add: extends_def)
qed

lemma rewrite_all_outside:
  "rewrite_all gen blocks (prog, reg, uids) = Inr (prog', reg', uids') \<Longrightarrow>
   fst ` set reg' = fst ` set reg \<and> anchors reg' \<subseteq> anchors reg \<and>
   erase_program (fst ` set reg) prog' = erase_program (fst ` set reg) prog"
proof (induction blocks arbitrary: prog reg uids)
  case Nil
  then show ?case by simp
next
  case (Cons block blocks)
  show ?case
  proof (cases "map_of reg block")
    case None
    with Cons.prems have "rewrite_all gen blocks (prog, reg, uids) = Inr (prog', reg', uids')"
      by simp
    from Cons.IH [OF this] show ?thesis .
  next
    case (Some traitNS)
    with Cons.prems obtain prog1 traitNS1 uids1 where
      a: "blockPath_traverse gen reg block prog (traitNS, uids) = Inr (prog1, traitNS1, uids1)"
      and b: "rewrite_all gen blocks (prog1, AList.update block traitNS1 reg, uids1) = Inr (prog', reg', uids')"
      by (auto split: sum.splits)
    have k: "fst ` set (AList.update block traitNS1 reg) = fst ` set reg"
      using Some by (rule update_keys_present)
    have p: "anchors (AList.update block traitNS1 reg) \<subseteq> anchors reg"
      using Some blockPath_traverse_path [OF a] by (rule anchors_update)
    have "block \<in> fst ` set reg"
      using Some by (auto dest: map_of_SomeD intro: rev_image_eqI)
    from blockPath_traverse_erase [OF a this]
    have e: "erase_program (fst ` set reg) prog1 = erase_program (fst ` set reg) prog" .
    from Cons.IH [OF b] k p e show ?thesis by auto
  qed
qed

lemma inherit_all_outside:
  "inherit_all prog reg blocks = Inr reg' \<Longrightarrow>
   fst ` set reg' = fst ` set reg \<and> anchors reg' \<subseteq> anchors reg"
proof (induction blocks arbitrary: reg)
  case Nil
  then show ?case by simp
next
  case (Cons block blocks)
  show ?case
  proof (cases "map_of reg block")
    case None
    with Cons.prems have "inherit_all prog reg blocks = Inr reg'" by simp
    from Cons.IH [OF this] show ?thesis .
  next
    case (Some ns)
    with Cons.prems obtain ns' where a: "inherit_from prog reg ns (parentPaths block) = Inr ns'"
      and b: "inherit_all prog (AList.update block ns' reg) blocks = Inr reg'"
      by (auto split: sum.splits)
    have k: "fst ` set (AList.update block ns' reg) = fst ` set reg"
      using Some by (rule update_keys_present)
    have p: "anchors (AList.update block ns' reg) \<subseteq> anchors reg"
      using Some inherit_from_Inr [OF a] by (intro anchors_update) simp_all
    from Cons.IH [OF b] k p show ?thesis by auto
  qed
qed

lemma is_statement_splice: "is_statement p (splice f x) = is_statement p x"
  by (cases x) auto

lemma is_statement_visible:
  "is_statement p x \<Longrightarrow> p \<in> set (labeled_tags (erase K chain x))"
  by (cases x) auto

lemma splice_erase:
  "(\<forall>x. \<not> is_statement p x \<longrightarrow> f x = [x]) \<Longrightarrow>
     p \<notin> set (labeled_tags (erase K chain n)) \<Longrightarrow>
     erase K chain (splice f n) = erase K chain n"
  "(\<forall>x. \<not> is_statement p x \<longrightarrow> f x = [x]) \<Longrightarrow>
     p \<notin> set (labeled_tags_list (erase_list K chain xs)) \<Longrightarrow>
     erase_list K chain (splice_stmts f xs) = erase_list K chain xs"
  "(\<forall>x. \<not> is_statement p x \<longrightarrow> f x = [x]) \<Longrightarrow>
     p \<notin> set (labeled_tags_list (erase_list K chain xs)) \<Longrightarrow>
     erase_list K chain (splice_children f xs) = erase_list K chain xs"
proof (induction f n and f xs and f xs arbitrary: chain and chain and chain
        rule: splice_splice_stmts_splice_children.induct)
  case (15 f x xs)
  from "15.prems"(2) have nx: "p \<notin> set (labeled_tags (erase K chain x))"
    and nxs: "p \<notin> set (labeled_tags_list (erase_list K chain xs))"
    by simp_all
  from nx have "\<not> is_statement p x" using is_statement_visible by blast
  then have "\<not> is_statement p (splice f x)" by (simp add: is_statement_splice)
  with "15.prems"(1) have "f (splice f x) = [splice f x]" by blast
  with "15.IH"(1) [OF "15.prems"(1) nx] "15.IH"(2) [OF "15.prems"(1) nxs]
  show ?case by simp
qed auto

definition visible_labeled :: "nat list set \<Rightarrow> program \<Rightarrow> nat set" where
  "visible_labeled K prog = set (labeled_tags_list (erase_program K prog))"

lemma splice_program_erase:
  assumes "\<forall>x. \<not> is_statement p x \<longrightarrow> f x = [x]" and "p \<notin> visible_labeled K prog"
  shows "erase_program K (Program (splice_stmts f (body_of prog))) = erase_program K prog"
  using assms splice_erase(2) [of p f K "[]" "body_of prog"]
  by (auto simp: erase_program_def visible_labeled_def)

lemma finalize_erase:
  assumes "path ns \<notin> visible_labeled K prog"
  shows "erase_program K (finalize g prog ns) = erase_program K prog"
  using assms unfolding finalize_def Let_def insertBefore_def
  by (auto intro!: splice_program_erase)

lemma remove_erase:
  assumes "path ns \<notin> visible_labeled K prog"
  shows "erase_program K (remove prog ns) = erase_program K prog"
  using assms unfolding remove_def remove_path_def
  by (auto intro!: splice_program_erase)

lemma foldl_finalize_erase:
  "\<forall>ns \<in> set nss. path ns \<notin> visible_labeled K prog \<Longrightarrow>
   erase_program K (foldl (finalize g) prog nss) = erase_program K prog"
proof (induction nss arbitrary: prog)
  case Nil
  then show ?case by simp
next
  case (Cons ns nss)
  then have e: "erase_program K (finalize g prog ns) = erase_program K prog"
    by (simp add: finalize_erase)
  then have "\<forall>m \<in> set nss. path m \<notin> visible_labeled K (finalize g prog ns)"
    using Cons.prems by (simp add: visible_labeled_def)
  from Cons.IH [OF this] e show ?case by simp
qed

lemma foldl_remove_erase:
  "\<forall>ns \<in> set nss. path ns \<notin> visible_labeled K prog \<Longrightarrow>
   erase_program K (foldl remove prog nss) = erase_program K prog"
proof (induction nss arbitrary: prog)
  case Nil
  then show ?case by simp
next
  case (Cons ns nss)
  then have e: "erase_program K (remove prog ns) = erase_program K prog"
    by (simp add: remove_erase)
  then have "\<forall>m \<in> set nss. path m \<notin> visible_labeled K (remove prog ns)"
    using Cons.prems by (simp add: visible_labeled_def)
  from Cons.IH [OF this] e show ?case by simp
qed

lemma clean_identifiers:
  "identifiers (clean n) = identifiers n"
  "identifiers_list (clean_list ns) = identifiers_list ns"
  by (induction n and ns rule: clean_clean_list.induct) auto

lemma register_keys:
  assumes "register prog reg chain tag = Inr reg'"
  shows "fst ` set reg' = insert chain (fst ` set reg)"
proof -
  from assms obtain ns' where "reg' = AList.update chain ns' reg"
    by (auto simp: register_def split: sum.splits option.splits)
  then show ?thesis by (simp add: AList.dom_update)
qed

lemma anchors_update_insert:
  "anchors (AList.update k v reg) \<subseteq> insert (path v) (anchors reg)"
proof
  fix p assume "p \<in> anchors (AList.update k v reg)"
  then obtain k' v' where kv: "(k', v') \<in> set (AList.update k v reg)" and p: "p = path v'"
    by (auto simp: anchors_def)
  from kv set_update_subset [of k v reg] have "(k', v') = (k, v) \<or> (k', v') \<in> set reg"
    by blast
  then show "p \<in> insert (path v) (anchors reg)"
  proof
    assume "(k', v') = (k, v)"
    with p show ?thesis by simp
  next
    assume "(k', v') \<in> set reg"
    with p show ?thesis by (force simp: anchors_def)
  qed
qed

lemma collect_keys:
  "collect prog chain inBlock n reg = Inr reg' \<Longrightarrow>
     fst ` set reg' = fst ` set reg \<union> {k. declared_in k chain n \<noteq> []}"
  "collect_list prog chain inBlock ns reg = Inr reg' \<Longrightarrow>
     fst ` set reg' = fst ` set reg \<union> {k. declared_in_list k chain ns \<noteq> []}"
proof (induction prog chain inBlock n reg and prog chain inBlock ns reg
        arbitrary: reg' and reg' rule: collect_collect_list.induct)
  case (8 prog chain inBlock tag label body reg)
  show ?case
  proof (cases "label = straitsProvider")
    case False
    with 8 show ?thesis by simp
  next
    case True
    with "8.prems" obtain reg1 where a: "register prog reg chain tag = Inr reg1"
      and b: "collect prog chain False body reg1 = Inr reg'" and ib: inBlock
      by (auto split: if_splits sum.splits)
    have "fst ` set reg' = fst ` set reg1 \<union> {k. declared_in k chain body \<noteq> []}"
      using "8.IH"(2) True ib a b by simp
    with register_keys [OF a] True show ?thesis by auto
  qed
qed (auto split: sum.splits)

lemma register_anchors:
  assumes "register prog reg chain tag = Inr reg'"
  shows "anchors reg' \<subseteq> insert tag (anchors reg)"
proof (cases "map_of reg chain")
  case None
  with assms obtain ns ns' where a: "new_TraitNamespace prog chain tag = Inr ns"
    and b: "addProvider prog ns tag = Inr ns'" and c: "reg' = AList.update chain ns' reg"
    by (auto simp: register_def split: sum.splits)
  from a have "path ns = tag"
    unfolding new_TraitNamespace_def by (auto dest!: addProvider_Inr)
  with addProvider_Inr [OF b] have "path ns' = tag" by simp
  with anchors_update_insert [of chain ns' reg] c show ?thesis
    by simp
next
  case (Some ns)
  with assms obtain ns' where b: "addProvider prog ns tag = Inr ns'" and c: "reg' = AList.update chain ns' reg"
    by (auto simp: register_def split: sum.splits)
  from addProvider_Inr [OF b] have "path ns' = path ns" by simp
  from anchors_update [OF Some this] c show ?thesis by auto
qed

lemma collect_anchors:
  "collect prog chain inBlock n reg = Inr reg' \<Longrightarrow>
     anchors reg' \<subseteq> anchors reg \<union> set (provider_statements n)"
  "collect_list prog chain inBlock ns reg = Inr reg' \<Longrightarrow>
     anchors reg' \<subseteq> anchors reg \<union> set (provider_statements_list ns)"
proof (induction prog chain inBlock n reg and prog chain inBlock ns reg
        arbitrary: reg' and reg' rule: collect_collect_list.induct)
  case (8 prog chain inBlock tag label body reg)
  show ?case
  proof (cases "label = straitsProvider")
    case False
    with 8 show ?thesis by simp
  next
    case True
    with "8.prems" obtain reg1 where a: "register prog reg chain tag = Inr reg1"
      and b: "collect prog chain False body reg1 = Inr reg'" and ib: inBlock
      by (auto split: if_splits sum.splits)
    have "anchors reg' \<subseteq> anchors reg1 \<union> set (provider_statements body)"
      using "8.IH"(2) True ib a b by simp
    with register_anchors [OF a] True show ?thesis by auto
  qed
qed (fastforce split: sum.splits)+

lemma provider_statements_labeled:
  "set (provider_statements n) \<subseteq> set (labeled_tags n)"
  "set (provider_statements_list ns) \<subseteq> set (labeled_tags_list ns)"
  by (induction n and ns rule: provider_statements_provider_statements_list.induct) auto

lemma erase_labeled:
  "set (labeled_tags (erase K chain n)) \<subseteq> set (labeled_tags n)"
  "set (labeled_tags_list (erase_list K chain xs)) \<subseteq> set (labeled_tags_list xs)"
  by (induction K chain n and K chain xs rule: erase_erase_list.induct) auto

lemma disjoint_parts:
  "A1 \<subseteq> L1 \<Longrightarrow> V1 \<subseteq> L1 \<Longrightarrow> A2 \<subseteq> L2 \<Longrightarrow> V2 \<subseteq> L2 \<Longrightarrow> L1 \<inter> L2 = {} \<Longrightarrow>
   A1 \<inter> V1 = {} \<Longrightarrow> A2 \<inter> V2 = {} \<Longrightarrow> (A1 \<union> A2) \<inter> (V1 \<union> V2) = {}"
  by blast

lemma collect_mono:
  "collect prog chain inBlock n reg = Inr reg' \<Longrightarrow> fst ` set reg \<subseteq> fst ` set reg'"
  "collect_list prog chain inBlock ns reg = Inr reg' \<Longrightarrow> fst ` set reg \<subseteq> fst ` set reg'"
  using collect_keys by blast+

lemma providers_not_visible:
  "collect prog chain inBlock n reg = Inr reg' \<Longrightarrow> fst ` set reg' \<subseteq> K \<Longrightarrow> chain \<notin> K \<Longrightarrow>
     distinct (labeled_tags n) \<Longrightarrow>
     set (provider_statements n) \<inter> set (labeled_tags (erase K chain n)) = {}"
  "collect_list prog chain inBlock ns reg = Inr reg' \<Longrightarrow> fst ` set reg' \<subseteq> K \<Longrightarrow> chain \<notin> K \<Longrightarrow>
     distinct (labeled_tags_list ns) \<Longrightarrow>
     set (provider_statements_list ns) \<inter> set (labeled_tags_list (erase_list K chain ns)) = {}"
proof (induction prog chain inBlock n reg and prog chain inBlock ns reg
        arbitrary: reg' and reg' rule: collect_collect_list.induct)
  case (5 prog chain inBlock obj prp reg)
  from "5.prems"(1) obtain reg1 where a: "collect prog chain False obj reg = Inr reg1"
    and b: "collect prog chain False prp reg1 = Inr reg'"
    by (auto split: sum.splits)
  from collect_mono(1) [OF b] "5.prems"(2) have k1: "fst ` set reg1 \<subseteq> K" by blast
  from "5.prems"(4) have d: "distinct (labeled_tags obj)" "distinct (labeled_tags prp)"
    "set (labeled_tags obj) \<inter> set (labeled_tags prp) = {}" by simp_all
  from disjoint_parts [OF provider_statements_labeled(1) erase_labeled(1)
      provider_statements_labeled(1) erase_labeled(1) d(3)
      "5.IH"(1) [OF a k1 "5.prems"(3) d(1)] "5.IH"(2) [OF a b "5.prems"(2,3) d(2)]]
  show ?case by simp
next
  case (6 prog chain inBlock callee args reg)
  from "6.prems"(1) obtain reg1 where a: "collect prog chain False callee reg = Inr reg1"
    and b: "collect_list prog chain False args reg1 = Inr reg'"
    by (auto split: sum.splits)
  from collect_mono(2) [OF b] "6.prems"(2) have k1: "fst ` set reg1 \<subseteq> K" by blast
  from "6.prems"(4) have d: "distinct (labeled_tags callee)" "distinct (labeled_tags_list args)"
    "set (labeled_tags callee) \<inter> set (labeled_tags_list args) = {}" by simp_all
  from disjoint_parts [OF provider_statements_labeled(1) erase_labeled(1)
      provider_statements_labeled(2) erase_labeled(2) d(3)
      "6.IH"(1) [OF a k1 "6.prems"(3) d(1)] "6.IH"(2) [OF a b "6.prems"(2,3) d(2)]]
  show ?case by simp
next
  case (8 prog chain inBlock tag label body reg)
  show ?case
  proof (cases "label = straitsProvider")
    case True
    with "8.prems"(1) obtain reg1 where a: "register prog reg chain tag = Inr reg1"
      and b: "collect prog chain False body reg1 = Inr reg'"
      by (auto split: if_splits sum.splits)
    from register_keys [OF a] collect_mono(1) [OF b] "8.prems"(2) have "chain \<in> K" by blast
    with "8.prems"(3) show ?thesis by simp
  next
    case False
    with "8.prems"(1) have c: "collect prog chain False body reg = Inr reg'" by simp
    from "8.prems"(4) have d: "distinct (labeled_tags body)" "tag \<notin> set (labeled_tags body)"
      by simp_all
    from "8.IH"(1) [OF False c "8.prems"(2,3) d(1)] d(2) provider_statements_labeled(1) [of body]
      False
    show ?thesis by auto
  qed
next
  case (9 prog chain inBlock tag body reg)
  show ?case
  proof (cases "tag # chain \<in> K")
    case True
    then show ?thesis by simp
  next
    case False
    from "9.IH" [OF _ "9.prems"(2) False] "9.prems"(1,4) False show ?thesis by simp
  qed
next
  case (11 prog chain inBlock i init reg)
  from "11.prems"(1) obtain reg1 where a: "collect prog chain False i reg = Inr reg1"
    and b: "collect prog chain False init reg1 = Inr reg'"
    by (auto split: sum.splits)
  from collect_mono(1) [OF b] "11.prems"(2) have k1: "fst ` set reg1 \<subseteq> K" by blast
  from "11.prems"(4) have d: "distinct (labeled_tags i)" "distinct (labeled_tags init)"
    "set (labeled_tags i) \<inter> set (labeled_tags init) = {}" by simp_all
  from disjoint_parts [OF provider_statements_labeled(1) erase_labeled(1)
      provider_statements_labeled(1) erase_labeled(1) d(3)
      "11.IH"(1) [OF a k1 "11.prems"(3) d(1)] "11.IH"(2) [OF a b "11.prems"(2,3) d(2)]]
  show ?case by simp
next
  case (15 prog chain inBlock x xs reg)
  from "15.prems"(1) obtain reg1 where a: "collect prog chain inBlock x reg = Inr reg1"
    and b: "collect_list prog chain inBlock xs reg1 = Inr reg'"
    by (auto split: sum.splits)
  from collect_mono(2) [OF b] "15.prems"(2) have k1: "fst ` set reg1 \<subseteq> K" by blast
  from "15.prems"(4) have d: "distinct (labeled_tags x)" "distinct (labeled_tags_list xs)"
    "set (labeled_tags x) \<inter> set (labeled_tags_list xs) = {}" by simp_all
  from disjoint_parts [OF provider_statements_labeled(1) erase_labeled(1)
      provider_statements_labeled(2) erase_labeled(2) d(3)
      "15.IH"(1) [OF a k1 "15.prems"(3) d(1)] "15.IH"(2) [OF a b "15.prems"(2,3) d(2)]]
  show ?case by simp
qed auto

lemma declared_in_short:
  "length k \<le> length chain \<Longrightarrow>
     declared_in k chain n = (if k = chain then own_statements n else [])"
  "length k \<le> length chain \<Longrightarrow>
     declared_in_list k chain ns = (if k = chain then own_statements_list ns else [])"
  by (induction k chain n and k chain ns rule: declared_in_declared_in_list.induct) auto

lemma declared_in_head:
  "declared_in (t # c') chain n \<noteq> [] \<Longrightarrow> t \<in> set chain \<or> t \<in> set (block_tags n)"
  "declared_in_list (t # c') chain ns \<noteq> [] \<Longrightarrow> t \<in> set chain \<or> t \<in> set (block_tags_list ns)"
proof (induction "t # c'" chain n and "t # c'" chain ns
        rule: declared_in_declared_in_list.induct)
  case (8 chain tag label body)
  then show ?case by (auto split: if_splits)
qed auto

lemma unguarded_identifiers:
  "unguarded n \<Longrightarrow> straits \<in> set (identifiers n)"
  "unguarded_list ns \<Longrightarrow> straits \<in> set (identifiers_list ns)"
  by (induction n and ns rule: unguarded_unguarded_list.induct) auto

lemma unguarded_erase:
  "unguarded n \<Longrightarrow> distinct (block_tags n) \<Longrightarrow> set chain \<inter> set (block_tags n) = {} \<Longrightarrow>
     (\<forall>t \<in> set (block_tags n). \<forall>c'. t # c' \<in> K \<longrightarrow> declared_in (t # c') chain n \<noteq> []) \<Longrightarrow>
     straits \<in> set (identifiers (erase K chain n))"
  "unguarded_list ns \<Longrightarrow> distinct (block_tags_list ns) \<Longrightarrow> set chain \<inter> set (block_tags_list ns) = {} \<Longrightarrow>
     (\<forall>t \<in> set (block_tags_list ns). \<forall>c'. t # c' \<in> K \<longrightarrow> declared_in_list (t # c') chain ns \<noteq> []) \<Longrightarrow>
     straits \<in> set (identifiers_list (erase_list K chain ns))"
proof (induction K chain n and K chain ns rule: erase_erase_list.induct)
  case (5 K chain obj prp)
  have ko: "\<forall>t \<in> set (block_tags obj). \<forall>c'. t # c' \<in> K \<longrightarrow> declared_in (t # c') chain obj \<noteq> []"
  proof (intro ballI allI impI)
    fix t c' assume t: "t \<in> set (block_tags obj)" and k: "t # c' \<in> K"
    with "5.prems"(4) have "declared_in (t # c') chain obj @ declared_in (t # c') chain prp \<noteq> []"
      by simp
    moreover have "declared_in (t # c') chain prp = []"
    proof (rule ccontr)
      assume "declared_in (t # c') chain prp \<noteq> []"
      from declared_in_head(1) [OF this] t "5.prems"(2,3) show False by auto
    qed
    ultimately show "declared_in (t # c') chain obj \<noteq> []" by simp
  qed
  have kp: "\<forall>t \<in> set (block_tags prp). \<forall>c'. t # c' \<in> K \<longrightarrow> declared_in (t # c') chain prp \<noteq> []"
  proof (intro ballI allI impI)
    fix t c' assume t: "t \<in> set (block_tags prp)" and k: "t # c' \<in> K"
    with "5.prems"(4) have "declared_in (t # c') chain obj @ declared_in (t # c') chain prp \<noteq> []"
      by simp
    moreover have "declared_in (t # c') chain obj = []"
    proof (rule ccontr)
      assume "declared_in (t # c') chain obj \<noteq> []"
      from declared_in_head(1) [OF this] t "5.prems"(2,3) show False by auto
    qed
    ultimately show "declared_in (t # c') chain prp \<noteq> []" by simp
  qed
  from "5.prems"(1) have "unguarded obj \<or> unguarded prp" by simp
  then show ?case
  proof
    assume "unguarded obj"
    from "5.IH"(1) [OF this _ _ ko] "5.prems"(2,3) show ?thesis by auto
  next
    assume "unguarded prp"
    from "5.IH"(2) [OF this _ _ kp] "5.prems"(2,3) show ?thesis by auto
  qed
next
  case (6 K chain callee args)
  have ko: "\<forall>t \<in> set (block_tags callee). \<forall>c'. t # c' \<in> K \<longrightarrow> declared_in (t # c') chain callee \<noteq> []"
  proof (intro ballI allI impI)
    fix t c' assume t: "t \<in> set (block_tags callee)" and k: "t # c' \<in> K"
    with "6.prems"(4) have "declared_in (t # c') chain callee @ declared_in_list (t # c') chain args \<noteq> []"
      by simp
    moreover have "declared_in_list (t # c') chain args = []"
    proof (rule ccontr)
      assume "declared_in_list (t # c') chain args \<noteq> []"
      from declared_in_head(2) [OF this] t "6.prems"(2,3) show False by auto
    qed
    ultimately show "declared_in (t # c') chain callee \<noteq> []" by simp
  qed
  have kp: "\<forall>t \<in> set (block_tags_list args). \<forall>c'. t # c' \<in> K \<longrightarrow> declared_in_list (t # c') chain args \<noteq> []"
  proof (intro ballI allI impI)
    fix t c' assume t: "t \<in> set (block_tags_list args)" and k: "t # c' \<in> K"
    with "6.prems"(4) have "declared_in (t # c') chain callee @ declared_in_list (t # c') chain args \<noteq> []"
      by simp
    moreover have "declared_in (t # c') chain callee = []"
    proof (rule ccontr)
      assume "declared_in (t # c') chain callee \<noteq> []"
      from declared_in_head(1) [OF this] t "6.prems"(2,3) show False by auto
    qed
    ultimately show "declared_in_list (t # c') chain args \<noteq> []" by simp
  qed
  from "6.prems"(1) have "unguarded callee \<or> unguarded_list args" by simp
  then show ?case
  proof
    assume "unguarded callee"
    from "6.IH"(1) [OF this _ _ ko] "6.prems"(2,3) show ?thesis by auto
  next
    assume "unguarded_list args"
    from "6.IH"(2) [OF this _ _ kp] "6.prems"(2,3) show ?thesis by auto
  qed
next
  case (8 K chain tag label body)
  have kb: "\<forall>t \<in> set (block_tags body). \<forall>c'. t # c' \<in> K \<longrightarrow> declared_in (t # c') chain body \<noteq> []"
  proof (intro ballI allI impI)
    fix t c' assume t: "t \<in> set (block_tags body)" and k: "t # c' \<in> K"
    from t "8.prems"(3) have "chain \<noteq> t # c'" by auto
    with t k "8.prems"(4) show "declared_in (t # c') chain body \<noteq> []" by simp
  qed
  from "8.prems"(1) have "label = straits \<or> unguarded body" by simp
  then show ?case
  proof
    assume "label = straits"
    then show ?thesis by simp
  next
    assume "unguarded body"
    from "8.IH" [OF this _ _ kb] "8.prems"(2,3) show ?thesis by auto
  qed
next
  case (9 K chain tag body)
  from "9.prems"(1) have own: "own_statements_list body = []" and u: "unguarded_list body"
    by simp_all
  have nk: "tag # chain \<notin> K"
  proof
    assume "tag # chain \<in> K"
    with "9.prems"(4) have "declared_in_list (tag # chain) (tag # chain) body \<noteq> []" by simp
    with own show False by (simp add: declared_in_short)
  qed
  have kb: "\<forall>t \<in> set (block_tags_list body). \<forall>c'. t # c' \<in> K \<longrightarrow>
      declared_in_list (t # c') (tag # chain) body \<noteq> []"
    using "9.prems"(4) by simp
  from "9.IH" [OF nk u _ _ kb] "9.prems"(2,3) nk show ?case by auto
next
  case (11 K chain i init)
  have ko: "\<forall>t \<in> set (block_tags i). \<forall>c'. t # c' \<in> K \<longrightarrow> declared_in (t # c') chain i \<noteq> []"
  proof (intro ballI allI impI)
    fix t c' assume t: "t \<in> set (block_tags i)" and k: "t # c' \<in> K"
    with "11.prems"(4) have "declared_in (t # c') chain i @ declared_in (t # c') chain init \<noteq> []"
      by simp
    moreover have "declared_in (t # c') chain init = []"
    proof (rule ccontr)
      assume "declared_in (t # c') chain init \<noteq> []"
      from declared_in_head(1) [OF this] t "11.prems"(2,3) show False by auto
    qed
    ultimately show "declared_in (t # c') chain i \<noteq> []" by simp
  qed
  have kp: "\<forall>t \<in> set (block_tags init). \<forall>c'. t # c' \<in> K \<longrightarrow> declared_in (t # c') chain init \<noteq> []"
  proof (intro ballI allI impI)
    fix t c' assume t: "t \<in> set (block_tags init)" and k: "t # c' \<in> K"
    with "11.prems"(4) have "declared_in (t # c') chain i @ declared_in (t # c') chain init \<noteq> []"
      by simp
    moreover have "declared_in (t # c') chain i = []"
    proof (rule ccontr)
      assume "declared_in (t # c') chain i \<noteq> []"
      from declared_in_head(1) [OF this] t "11.prems"(2,3) show False by auto
    qed
    ultimately show "declared_in (t # c') chain init \<noteq> []" by simp
  qed
  from "11.prems"(1) have "unguarded i \<or> unguarded init" by simp
  then show ?case
  proof
    assume "unguarded i"
    from "11.IH"(1) [OF this _ _ ko] "11.prems"(2,3) show ?thesis by auto
  next
    assume "unguarded init"
    from "11.IH"(2) [OF this _ _ kp] "11.prems"(2,3) show ?thesis by auto
  qed
next
  case (15 K chain x xs)
  have ko: "\<forall>t \<in> set (block_tags x). \<forall>c'. t # c' \<in> K \<longrightarrow> declared_in (t # c') chain x \<noteq> []"
  proof (intro ballI allI impI)
    fix t c' assume t: "t \<in> set (block_tags x)" and k: "t # c' \<in> K"
    with "15.prems"(4) have "declared_in (t # c') chain x @ declared_in_list (t # c') chain xs \<noteq> []"
      by simp
    moreover have "declared_in_list (t # c') chain xs = []"
    proof (rule ccontr)
      assume "declared_in_list (t # c') chain xs \<noteq> []"
      from declared_in_head(2) [OF this] t "15.prems"(2,3) show False by auto
    qed
    ultimately show "declared_in (t # c') chain x \<noteq> []" by simp
  qed
  have kp: "\<forall>t \<in> set (block_tags_list xs). \<forall>c'. t # c' \<in> K \<longrightarrow> declared_in_list (t # c') chain xs \<noteq> []"
  proof (intro ballI allI impI)
    fix t c' assume t: "t \<in> set (block_tags_list xs)" and k: "t # c' \<in> K"
    with "15.prems"(4) have "declared_in (t # c') chain x @ declared_in_list (t # c') chain xs \<noteq> []"
      by simp
    moreover have "declared_in (t # c') chain x = []"
    proof (rule ccontr)
      assume "declared_in (t # c') chain x \<noteq> []"
      from declared_in_head(1) [OF this] t "15.prems"(2,3) show False by auto
    qed
    ultimately show "declared_in_list (t # c') chain xs \<noteq> []" by simp
  qed
  from "15.prems"(1) have "unguarded x \<or> unguarded_list xs" by simp
  then show ?case
  proof
    assume "unguarded x"
    from "15.IH"(1) [OF this _ _ ko] "15.prems"(2,3) show ?thesis by auto
  next
    assume "unguarded_list xs"
    from "15.IH"(2) [OF this _ _ kp] "15.prems"(2,3) show ?thesis by auto
  qed
qed auto

lemma erase_program_identifiers:
  "set (identifiers_list (erase_program K prog)) \<subseteq> set (program_identifiers prog)"
  using erase_identifiers(2) [of K "[]" "body_of prog"]
  by (auto simp: erase_program_def program_identifiers_def)

lemma unguarded_rejected:
  assumes wf: "well_formed prog" and u: "unguarded_program prog"
  shows "pass gen prog \<noteq> Inr out"
proof
  assume "pass gen prog = Inr out"
  then show False
  proof (cases rule: pass_Inr_cases)
    case no_providers
    from u have "straits \<in> set (program_identifiers prog)"
      by (simp add: unguarded_program_def program_identifiers_def unguarded_identifiers)
    with no_providers(2) show False by (simp add: finalCheck_identifiers)
  next
    case (providers reg inherited prog2 rewritten uids)
    let ?g = "gen [] [] ''getSymbol''"
    let ?prog1 = "unshiftContainer (GetSymbolFunction ?g) prog"
    let ?K = "fst ` set reg"
    from providers(1) have c: "collect_list prog [] True (body_of prog) [] = Inr reg"
      by (simp add: collect_program_def)
    from collect_keys(2) [OF c]
    have K: "?K = {k. declared_in_list k [] (body_of prog) \<noteq> []}" by simp
    from u have own: "own_statements_list (body_of prog) = []" and ul: "unguarded_list (body_of prog)"
      by (simp_all add: unguarded_program_def)
    have nk: "[] \<notin> ?K"
      unfolding K using own by (simp add: declared_in_short)
    from wf have db: "distinct (block_tags_list (body_of prog))"
      and dl: "distinct (labeled_tags_list (body_of prog))"
      by (simp_all add: well_formed_def)
    have "straits \<in> set (identifiers_list (erase_list ?K [] (body_of prog)))"
      by (rule unguarded_erase(2) [OF ul db]) (simp_all add: K)
    then have s1: "straits \<in> set (identifiers_list (erase_program ?K ?prog1))"
      using nk by (simp add: erase_program_def unshiftContainer_def)
    from collect_anchors(2) [OF c]
    have a0: "anchors reg \<subseteq> set (provider_statements_list (body_of prog))"
      by (simp add: anchors_def)
    from providers_not_visible(2) [OF c subset_refl nk dl]
    have "set (provider_statements_list (body_of prog)) \<inter> visible_labeled ?K ?prog1 = {}"
      using nk by (simp add: visible_labeled_def erase_program_def unshiftContainer_def)
    with a0 have v1: "anchors reg \<inter> visible_labeled ?K ?prog1 = {}" by blast
    from inherit_all_outside [OF providers(3) [unfolded inherit_def]]
    have ki: "fst ` set inherited = ?K" and ai: "anchors inherited \<subseteq> anchors reg" by simp_all
    from rewrite_all_outside [OF providers(4)] ki
    have ar: "anchors rewritten \<subseteq> anchors inherited"
      and e2: "erase_program ?K prog2 = erase_program ?K ?prog1" by simp_all
    let ?nss = "map snd rewritten"
    let ?prog3 = "foldl (finalize ?g) prog2 ?nss"
    let ?prog4 = "foldl remove ?prog3 ?nss"
    have v2: "\<forall>ns \<in> set ?nss. path ns \<notin> visible_labeled ?K prog2"
    proof
      fix ns assume "ns \<in> set ?nss"
      then have "path ns \<in> anchors rewritten" by (simp add: anchors_def)
      with ar ai have "path ns \<in> anchors reg" by blast
      with v1 have "path ns \<notin> visible_labeled ?K ?prog1" by blast
      then show "path ns \<notin> visible_labeled ?K prog2" by (simp add: visible_labeled_def e2)
    qed
    from foldl_finalize_erase [OF v2]
    have e3: "erase_program ?K ?prog3 = erase_program ?K prog2" .
    with v2 have v3: "\<forall>ns \<in> set ?nss. path ns \<notin> visible_labeled ?K ?prog3"
      by (simp add: visible_labeled_def)
    from foldl_remove_erase [OF v3]
    have e4: "erase_program ?K ?prog4 = erase_program ?K ?prog3" .
    from s1 e2 e3 e4 have "straits \<in> set (identifiers_list (erase_program ?K ?prog4))" by simp
    with erase_program_identifiers have "straits \<in> set (program_identifiers ?prog4)" by blast
    then have "straits \<in> set (program_identifiers out)"
      unfolding providers(5) by (simp add: program_identifiers_def clean_program_def clean_identifiers)
    with providers(6) show False by (simp add: finalCheck_identifiers)
  qed
qed

definition guarded_unit :: program where
  "guarded_unit = Program (LabeledStatement 1 ''_StraitsProvider'' (ExpressionStatement (Identifier ''symbols1'')) # two_accesses)"

definition unguarded_unit :: program where
  "unguarded_unit = Program [
     ExpressionStatement (MemberExpression (MemberExpression (Identifier ''a'') ''_Straits'') ''value''),
     Other ''FunctionDeclaration'' [Identifier ''f'', BlockStatement 3 [
        LabeledStatement 4 ''_StraitsProvider'' (ExpressionStatement (Identifier ''inner''))]]]"

lemma pass_guarded_unit:
  "pass demo_uid guarded_unit =
     Inr (Program
       [GetSymbolFunction ''_getSymbol'',
        VariableDeclaration ''const''
         [VariableDeclarator (Identifier ''_value'')
           (CallExpression (Identifier ''_getSymbol'') [StringLiteral ''value'', Identifier ''symbols1''])],
        ExpressionStatement (ComputedMemberExpression (Identifier ''a'') (Identifier ''_value'')),
        ExpressionStatement (ComputedMemberExpression (Identifier ''b'') (Identifier ''_value''))])"
  by code_simp

text \<open>
  C1. When the pass succeeds, no identifier named \<^verbatim>\<open>_Straits\<close> is left in the tree.
  And in a unit whose blocks and labeled statements are distinct nodes, a placeholder
  identifier (a trait access in particular) that no block with a provider statement of
  its own encloses, the program included, makes the pass throw: the unit is rejected
  while it is compiled.
\<close>

theorem no_marker_survives:
  "(pass gen prog = Inr out \<longrightarrow> straits \<notin> set (program_identifiers out)) \<and>
   (well_formed prog \<longrightarrow> unguarded_program prog \<longrightarrow> (\<exists>e. pass gen prog = Inl e))"
proof -
  have "\<exists>e. pass gen prog = Inl e" if "well_formed prog" and "unguarded_program prog"
  proof (cases "pass gen prog")
    case (Inl e)
    then show ?thesis by blast
  next
    case (Inr r)
    with unguarded_rejected [OF that, of gen r] show ?thesis by simp
  qed
  then show ?thesis using pass_no_marker by blast
qed

theorem no_marker_survives_witness:
  "well_formed unguarded_unit \<and> unguarded_program unguarded_unit \<and>
   (\<exists>e. pass demo_uid unguarded_unit = Inl e) \<and>
   straits \<notin> set (program_identifiers (Program
       [GetSymbolFunction ''_getSymbol'',
        VariableDeclaration ''const''
         [VariableDeclarator (Identifier ''_value'')
           (CallExpression (Identifier ''_getSymbol'') [StringLiteral ''value'', Identifier ''symbols1''])],
        ExpressionStatement (ComputedMemberExpression (Identifier ''a'') (Identifier ''_value'')),
        ExpressionStatement (ComputedMemberExpression (Identifier ''b'') (Identifier ''_value''))]))"
proof -
  have w: "well_formed unguarded_unit"
    by (simp add: well_formed_def unguarded_unit_def)
  have u: "unguarded_program unguarded_unit"
    by (simp add: unguarded_program_def unguarded_unit_def straits_def straitsProvider_def)
  from no_marker_survives [of demo_uid unguarded_unit] w u
  have e: "\<exists>e. pass demo_uid unguarded_unit = Inl e" by blast
  from no_marker_survives [of demo_uid guarded_unit] pass_guarded_unit
  have "straits \<notin> set (program_identifiers (Program
       [GetSymbolFunction ''_getSymbol'',
        VariableDeclaration ''const''
         [VariableDeclarator (Identifier ''_value'')
           (CallExpression (Identifier ''_getSymbol'') [StringLiteral ''value'', Identifier ''symbols1''])],
        ExpressionStatement (ComputedMemberExpression (Identifier ''a'') (Identifier ''_value'')),
        ExpressionStatement (ComputedMemberExpression (Identifier ''b'') (Identifier ''_value''))]))"
    by blast
  with w u e show ?thesis by blast
qed

section \<open>The declarations of a namespace\<close>

text \<open>
  The trait accesses of a tree, read off the tree alone. \<open>trait_names\<close> lists the trait
  names of the accesses \<^verbatim>\<open>obj._Straits.name\<close> of a tree, in traversal order, and
  \<open>resolve ident\<close> is the tree with every such access replaced by the computed access
  \<^verbatim>\<open>obj[ident(name)]\<close>, and every computed access \<^verbatim>\<open>obj._Straits[prop]\<close> by
  \<^verbatim>\<open>obj[prop]\<close>.
\<close>

fun trait_names :: "node \<Rightarrow> string list"
  and trait_names_list :: "node list \<Rightarrow> string list" where
  "trait_names (Identifier n) = []"
| "trait_names (StringLiteral v) = []"
| "trait_names (TemplateElement r c t) = []"
| "trait_names (MemberExpression obj name) =
     (case marker_object obj of
        Some obj0 \<Rightarrow> trait_names obj0 @ [name]
      | None \<Rightarrow> trait_names obj)"
| "trait_names (ComputedMemberExpression obj prop) =
     (case marker_object obj of
        Some obj0 \<Rightarrow> trait_names obj0 @ trait_names prop
      | None \<Rightarrow> trait_names obj @ trait_names prop)"
| "trait_names (CallExpression callee args) = trait_names callee @ trait_names_list args"
| "trait_names (ExpressionStatement e) = trait_names e"
| "trait_names (LabeledStatement tag label body) = trait_names body"
| "trait_names (BlockStatement tag body) = trait_names_list body"
| "trait_names (VariableDeclaration kind ds) = trait_names_list ds"
| "trait_names (VariableDeclarator i init) = trait_names i @ trait_names init"
| "trait_names (GetSymbolFunction g) = []"
| "trait_names (Other ty children) = trait_names_list children"
| "trait_names_list [] = []"
| "trait_names_list (x # xs) = trait_names x @ trait_names_list xs"

fun resolve :: "(string \<Rightarrow> string) \<Rightarrow> node \<Rightarrow> node"
  and resolve_list :: "(string \<Rightarrow> string) \<Rightarrow> node list \<Rightarrow> node list" where
  "resolve ident (Identifier n) = Identifier n"
| "resolve ident (StringLiteral v) = StringLiteral v"
| "resolve ident (TemplateElement r c t) = TemplateElement r c t"
| "resolve ident (MemberExpression obj name) =
     (case marker_object obj of
        Some obj0 \<Rightarrow> ComputedMemberExpression (resolve ident obj0) (Identifier (ident name))
      | None \<Rightarrow> MemberExpression (resolve ident obj) name)"
| "resolve ident (ComputedMemberExpression obj prop) =
     (case marker_object obj of
        Some obj0 \<Rightarrow> ComputedMemberExpression (resolve ident obj0) (resolve ident prop)
      | None \<Rightarrow> ComputedMemberExpression (resolve ident obj) (resolve ident prop))"
| "resolve ident (CallExpression callee args) =
     CallExpression (resolve ident callee) (resolve_list ident args)"
| "resolve ident (ExpressionStatement e) = ExpressionStatement (resolve ident e)"
| "resolve ident (LabeledStatement tag label body) = LabeledStatement tag label (resolve ident body)"
| "resolve ident (BlockStatement tag body) = BlockStatement tag (resolve_list ident body)"
| "resolve ident (VariableDeclaration kind ds) = VariableDeclaration kind (resolve_list ident ds)"
| "resolve ident (VariableDeclarator i init) =
     VariableDeclarator (resolve ident i) (resolve ident init)"
| "resolve ident (GetSymbolFunction g) = GetSymbolFunction g"
| "resolve ident (Other ty children) = Other ty (resolve_list ident children)"
| "resolve_list ident [] = []"
| "resolve_list ident (x # xs) = resolve ident x # resolve_list ident xs"

text \<open>
  The governed subtree of a namespace. \<open>namespace_paths\<close> are the paths of the blocks
  that hold a provider statement, the program included. \<open>governed K k\<close> lists, for
  every block of the tree whose path is \<open>k\<close>, the statements of that block with the
  statements of the blocks inside it whose path is in \<open>K\<close> dropped (\<open>erase\<close>): with
  \<open>K\<close> the paths of the namespaces, the statements of the block of the namespace \<open>k\<close>
  without the nested namespaces. In a tree from the parser there is one such block.
\<close>

fun governed :: "nat list set \<Rightarrow> nat list \<Rightarrow> nat list \<Rightarrow> node \<Rightarrow> node list list"
  and governed_list :: "nat list set \<Rightarrow> nat list \<Rightarrow> nat list \<Rightarrow> node list \<Rightarrow> node list list" where
  "governed K k chain (Identifier n) = []"
| "governed K k chain (StringLiteral v) = []"
| "governed K k chain (TemplateElement r c t) = []"
| "governed K k chain (MemberExpression obj name) = governed K k chain obj"
| "governed K k chain (ComputedMemberExpression obj prop) =
     governed K k chain obj @ governed K k chain prop"
| "governed K k chain (CallExpression callee args) =
     governed K k chain callee @ governed_list K k chain args"
| "governed K k chain (ExpressionStatement e) = governed K k chain e"
| "governed K k chain (LabeledStatement tag label body) = governed K k chain body"
| "governed K k chain (BlockStatement tag body) =
     (if tag # chain = k then [erase_list K k body] else governed_list K k (tag # chain) body)"
| "governed K k chain (VariableDeclaration kind ds) = governed_list K k chain ds"
| "governed K k chain (VariableDeclarator i init) =
     governed K k chain i @ governed K k chain init"
| "governed K k chain (GetSymbolFunction g) = []"
| "governed K k chain (Other ty children) = governed_list K k chain children"
| "governed_list K k chain [] = []"
| "governed_list K k chain (x # xs) = governed K k chain x @ governed_list K k chain xs"

definition governed_program :: "nat list set \<Rightarrow> nat list \<Rightarrow> program \<Rightarrow> node list list" where
  "governed_program K k prog =
     (if k = [] then [erase_list K [] (body_of prog)] else governed_list K k [] (body_of prog))"

definition namespace_paths :: "program \<Rightarrow> nat list set" where
  "namespace_paths prog = {k. declared_in_list k [] (body_of prog) \<noteq> []}"

text \<open>
  When the keys of the map are the paths in \<open>K\<close>, the traversal of step 3 asks for the
  trait names of the governed subtree and leaves behind the resolved governed subtree.
\<close>

lemma marker_object_erase:
  "marker_object (erase K chain n) = map_option (erase K chain) (marker_object n)"
  by (cases n) auto

lemma requested_trait_names:
  "(\<forall>c. has reg c = (c \<in> K)) \<Longrightarrow> requested reg chain n = trait_names (erase K chain n)"
  "(\<forall>c. has reg c = (c \<in> K)) \<Longrightarrow> requested_list reg chain xs = trait_names_list (erase_list K chain xs)"
  by (induction reg chain n and reg chain xs rule: requested_requested_list.induct)
     (auto simp: marker_object_erase marker_object_eq split: option.splits)

lemma resolved_resolve:
  "(\<forall>c. has reg c = (c \<in> K)) \<Longrightarrow>
     erase K chain (resolved ident reg chain n) = resolve ident (erase K chain n)"
  "(\<forall>c. has reg c = (c \<in> K)) \<Longrightarrow>
     erase_list K chain (resolved_list ident reg chain xs) = resolve_list ident (erase_list K chain xs)"
  by (induction ident reg chain n and ident reg chain xs rule: resolved_resolved_list.induct)
     (auto simp: marker_object_erase marker_object_eq split: option.splits)

lemma rewrite_governed_spec:
  assumes "rewrite_list gen reg chain xs st = Inr (xs', st')" and "\<forall>c. has reg c = (c \<in> K)"
  shows "follows (fst st') (fst st) (trait_names_list (erase_list K chain xs))"
    and "agrees ident (symbols (fst st')) \<Longrightarrow>
           erase_list K chain xs' = resolve_list ident (erase_list K chain xs)"
  using rewrite_spec(2) [OF assms(1)] requested_trait_names(2) [OF assms(2)]
    resolved_resolve(2) [OF assms(2)]
  by auto


lemma rewrite_governed:
  "rewrite gen reg chain n st = Inr (n', st') \<Longrightarrow> (\<forall>c. has reg c = (c \<in> K)) \<Longrightarrow> k \<in> K \<Longrightarrow>
     governed K k chain n' = governed K k chain n"
  "rewrite_list gen reg chain xs st = Inr (xs', st') \<Longrightarrow> (\<forall>c. has reg c = (c \<in> K)) \<Longrightarrow> k \<in> K \<Longrightarrow>
     governed_list K k chain xs' = governed_list K k chain xs"
proof (induction gen reg chain n st and gen reg chain xs st
        arbitrary: n' st' and xs' st'
        rule: rewrite_rewrite_list.induct)
  case (4 gen reg chain obj name st)
  then show ?case
    by (cases "marker_object obj")
       (auto simp: marker_object_eq split: sum.splits if_splits prod.splits)
next
  case (5 gen reg chain obj prp st)
  then show ?case
    by (cases "marker_object obj")
       (auto simp: marker_object_eq split: sum.splits if_splits prod.splits)
next
  case (9 gen reg chain tag body st)
  then show ?case by (auto split: sum.splits if_splits)
qed (auto split: sum.splits if_splits)

lemma traverse_at_governed_other:
  "traverse_at gen reg target chain n st = Inr (n', st') \<Longrightarrow> (\<forall>c. has reg c = (c \<in> K)) \<Longrightarrow>
     target \<in> K \<Longrightarrow> k \<in> K \<Longrightarrow> k \<noteq> target \<Longrightarrow>
     governed K k chain n' = governed K k chain n"
  "traverse_at_list gen reg target chain xs st = Inr (xs', st') \<Longrightarrow> (\<forall>c. has reg c = (c \<in> K)) \<Longrightarrow>
     target \<in> K \<Longrightarrow> k \<in> K \<Longrightarrow> k \<noteq> target \<Longrightarrow>
     governed_list K k chain xs' = governed_list K k chain xs"
proof (induction gen reg target chain n st and gen reg target chain xs st
        arbitrary: n' st' and xs' st'
        rule: traverse_at_traverse_at_list.induct)
  case (9 gen reg target chain tag body st)
  show ?case
  proof (cases "tag # chain = target")
    case True
    with "9.prems"(1) obtain body' where
      r: "rewrite_list gen reg (tag # chain) body st = Inr (body', st')"
      and n': "n' = BlockStatement tag body'"
      by (auto split: sum.splits)
    from rewrite_governed(2) [OF r "9.prems"(2,4)] True "9.prems"(5) n' show ?thesis by auto
  next
    case False
    with "9.prems"(1) obtain body' where
      r: "traverse_at_list gen reg target (tag # chain) body st = Inr (body', st')"
      and n': "n' = BlockStatement tag body'"
      by (auto split: sum.splits)
    show ?thesis
    proof (cases "tag # chain = k")
      case True
      from traverse_at_erase(2) [OF r "9.prems"(3)] True n' show ?thesis by simp
    next
      case nk: False
      from "9.IH" [OF False r "9.prems"(2-5)] nk n' show ?thesis by simp
    qed
  qed
qed (auto split: sum.splits if_splits)

lemma agrees_follows: "agrees ident (symbols ns') \<Longrightarrow> follows ns' ns names \<Longrightarrow> agrees ident (symbols ns)"
  using agrees_extends follows_extends by blast

lemma traverse_at_governed_target:
  "traverse_at gen reg target chain n st = Inr (n', st') \<Longrightarrow> (\<forall>c. has reg c = (c \<in> K)) \<Longrightarrow>
     follows (fst st') (fst st) (concat (map trait_names_list (governed K target chain n))) \<and>
     (\<forall>ident. agrees ident (symbols (fst st')) \<longrightarrow>
        governed K target chain n' = map (resolve_list ident) (governed K target chain n))"
  "traverse_at_list gen reg target chain xs st = Inr (xs', st') \<Longrightarrow> (\<forall>c. has reg c = (c \<in> K)) \<Longrightarrow>
     follows (fst st') (fst st) (concat (map trait_names_list (governed_list K target chain xs))) \<and>
     (\<forall>ident. agrees ident (symbols (fst st')) \<longrightarrow>
        governed_list K target chain xs' = map (resolve_list ident) (governed_list K target chain xs))"
proof (induction gen reg target chain n st and gen reg target chain xs st
        arbitrary: n' st' and xs' st'
        rule: traverse_at_traverse_at_list.induct)
  case (5 gen reg target chain obj prp st)
  then obtain c' st1 a' where
    r1: "traverse_at gen reg target chain obj st = Inr (c', st1)"
    and r2: "traverse_at gen reg target chain prp st1 = Inr (a', st')"
    and n': "n' = ComputedMemberExpression c' a'"
    by (auto split: sum.splits)
  note ih1 = "5.IH"(1) [OF r1 "5.prems"(2)]
  note ih2 = "5.IH"(2) [OF r1 refl r2 "5.prems"(2)]
  show ?case using ih1 ih2 n' follows_trans [OF conjunct1 [OF ih1] conjunct1 [OF ih2]]
    by (auto dest: agrees_follows)
next
  case (6 gen reg target chain callee args st)
  then obtain c' st1 a' where
    r1: "traverse_at gen reg target chain callee st = Inr (c', st1)"
    and r2: "traverse_at_list gen reg target chain args st1 = Inr (a', st')"
    and n': "n' = CallExpression c' a'"
    by (auto split: sum.splits)
  note ih1 = "6.IH"(1) [OF r1 "6.prems"(2)]
  note ih2 = "6.IH"(2) [OF r1 refl r2 "6.prems"(2)]
  show ?case using ih1 ih2 n' follows_trans [OF conjunct1 [OF ih1] conjunct1 [OF ih2]]
    by (auto dest: agrees_follows)
next
  case (9 gen reg target chain tag body st)
  show ?case
  proof (cases "tag # chain = target")
    case True
    with "9.prems"(1) obtain body' where
      r: "rewrite_list gen reg target body st = Inr (body', st')"
      and n': "n' = BlockStatement tag body'"
      by (auto split: sum.splits)
    from rewrite_governed_spec [OF r "9.prems"(2)] True n' show ?thesis by simp
  next
    case False
    with "9.prems"(1) obtain body' where
      r: "traverse_at_list gen reg target (tag # chain) body st = Inr (body', st')"
      and n': "n' = BlockStatement tag body'"
      by (auto split: sum.splits)
    from "9.IH" [OF False r "9.prems"(2)] False n' show ?thesis by simp
  qed
next
  case (11 gen reg target chain i init st)
  then obtain c' st1 a' where
    r1: "traverse_at gen reg target chain i st = Inr (c', st1)"
    and r2: "traverse_at gen reg target chain init st1 = Inr (a', st')"
    and n': "n' = VariableDeclarator c' a'"
    by (auto split: sum.splits)
  note ih1 = "11.IH"(1) [OF r1 "11.prems"(2)]
  note ih2 = "11.IH"(2) [OF r1 refl r2 "11.prems"(2)]
  show ?case using ih1 ih2 n' follows_trans [OF conjunct1 [OF ih1] conjunct1 [OF ih2]]
    by (auto dest: agrees_follows)
next
  case (15 gen reg target chain x xs st)
  then obtain c' st1 a' where
    r1: "traverse_at gen reg target chain x st = Inr (c', st1)"
    and r2: "traverse_at_list gen reg target chain xs st1 = Inr (a', st')"
    and n': "xs' = c' # a'"
    by (auto split: sum.splits)
  note ih1 = "15.IH"(1) [OF r1 "15.prems"(2)]
  note ih2 = "15.IH"(2) [OF r1 refl r2 "15.prems"(2)]
  show ?case using ih1 ih2 n' follows_trans [OF conjunct1 [OF ih1] conjunct1 [OF ih2]]
    by (auto dest: agrees_follows)
qed (auto simp: follows_refl split: sum.splits if_splits)


lemma has_keys: "has reg c = (c \<in> fst ` set reg)"
  by (simp add: has_def map_of_eq_None_iff)

lemma blockPath_traverse_governed_other:
  assumes "blockPath_traverse gen reg target prog st = Inr (prog', st')"
    and "\<forall>c. has reg c = (c \<in> K)" and "target \<in> K" and "k \<in> K" and "k \<noteq> target"
  shows "governed_program K k prog' = governed_program K k prog"
proof (cases "target = []")
  case True
  with assms(1) obtain body' where
    r: "rewrite_list gen reg [] (body_of prog) st = Inr (body', st')" and p: "prog' = Program body'"
    by (auto simp: blockPath_traverse_def split: sum.splits)
  from rewrite_governed(2) [OF r assms(2,4)] True assms(5) p show ?thesis
    by (simp add: governed_program_def)
next
  case False
  with assms(1) obtain body' where
    r: "traverse_at_list gen reg target [] (body_of prog) st = Inr (body', st')" and p: "prog' = Program body'"
    by (auto simp: blockPath_traverse_def split: sum.splits)
  show ?thesis
  proof (cases "k = []")
    case True
    from traverse_at_erase(2) [OF r assms(3)] True p show ?thesis
      by (simp add: governed_program_def)
  next
    case nk: False
    from traverse_at_governed_other(2) [OF r assms(2-5)] nk p show ?thesis
      by (simp add: governed_program_def)
  qed
qed

lemma blockPath_traverse_governed_target:
  assumes "blockPath_traverse gen reg target prog st = Inr (prog', st')"
    and "\<forall>c. has reg c = (c \<in> K)"
  shows "follows (fst st') (fst st) (concat (map trait_names_list (governed_program K target prog))) \<and>
         (\<forall>ident. agrees ident (symbols (fst st')) \<longrightarrow>
            governed_program K target prog' = map (resolve_list ident) (governed_program K target prog))"
proof (cases "target = []")
  case True
  with assms(1) obtain body' where
    r: "rewrite_list gen reg [] (body_of prog) st = Inr (body', st')" and p: "prog' = Program body'"
    by (auto simp: blockPath_traverse_def split: sum.splits)
  from rewrite_governed_spec [OF r assms(2)] True p show ?thesis
    by (simp add: governed_program_def)
next
  case False
  with assms(1) obtain body' where
    r: "traverse_at_list gen reg target [] (body_of prog) st = Inr (body', st')" and p: "prog' = Program body'"
    by (auto simp: blockPath_traverse_def split: sum.splits)
  from traverse_at_governed_target(2) [OF r assms(2)] False p show ?thesis
    by (simp add: governed_program_def)
qed

lemma rewrite_all_governed:
  "rewrite_all gen blocks (prog, reg, uids) = Inr (prog', reg', uids') \<Longrightarrow> distinct blocks \<Longrightarrow>
   fst ` set reg = K \<Longrightarrow> map_of reg k = Some ns \<Longrightarrow>
     (if k \<in> set blocks then
        (\<exists>ns'. map_of reg' k = Some ns' \<and>
           follows ns' ns (concat (map trait_names_list (governed_program K k prog))) \<and>
           (\<forall>ident. agrees ident (symbols ns') \<longrightarrow>
              governed_program K k prog' = map (resolve_list ident) (governed_program K k prog)))
      else map_of reg' k = Some ns \<and> governed_program K k prog' = governed_program K k prog)"
proof (induction blocks arbitrary: prog reg uids ns)
  case Nil
  then show ?case by simp
next
  case (Cons block blocks)
  from Cons.prems(2) have d: "distinct blocks" and nb: "block \<notin> set blocks" by simp_all
  from Cons.prems(3) have hk: "\<forall>c. has reg c = (c \<in> K)" by (simp add: has_keys)
  from Cons.prems(4) have kK: "k \<in> K"
    using Cons.prems(3) by (auto dest: map_of_SomeD intro: rev_image_eqI)
  show ?case
  proof (cases "map_of reg block")
    case None
    with Cons.prems(1) have r: "rewrite_all gen blocks (prog, reg, uids) = Inr (prog', reg', uids')"
      by simp
    from None Cons.prems(4) have "block \<noteq> k" by auto
    with Cons.IH [OF r d Cons.prems(3,4)] show ?thesis by simp
  next
    case (Some traitNS)
    with Cons.prems(1) obtain prog1 traitNS1 uids1 where
      a: "blockPath_traverse gen reg block prog (traitNS, uids) = Inr (prog1, traitNS1, uids1)"
      and b: "rewrite_all gen blocks (prog1, AList.update block traitNS1 reg, uids1) = Inr (prog', reg', uids')"
      by (auto split: sum.splits)
    have keys: "fst ` set (AList.update block traitNS1 reg) = K"
      using update_keys_present [OF Some] Cons.prems(3) by simp
    have bK: "block \<in> K"
      using Some Cons.prems(3) by (auto dest: map_of_SomeD intro: rev_image_eqI)
    show ?thesis
    proof (cases "block = k")
      case True
      with Some Cons.prems(4) have t: "traitNS = ns" by simp
      from blockPath_traverse_governed_target [OF a hk] True t
      have f: "follows traitNS1 ns (concat (map trait_names_list (governed_program K k prog)))"
        and g: "\<And>ident. agrees ident (symbols traitNS1) \<Longrightarrow>
            governed_program K k prog1 = map (resolve_list ident) (governed_program K k prog)"
        by simp_all
      have m: "map_of (AList.update block traitNS1 reg) k = Some traitNS1"
        using True by (simp add: update_conv')
      from Cons.IH [OF b d keys m] nb True
      have "map_of reg' k = Some traitNS1" and "governed_program K k prog' = governed_program K k prog1"
        by simp_all
      with f g True show ?thesis by auto
    next
      case False
      from blockPath_traverse_governed_other [OF a hk bK kK] False
      have e: "governed_program K k prog1 = governed_program K k prog" by simp
      have m: "map_of (AList.update block traitNS1 reg) k = Some ns"
        using False Cons.prems(4) by (simp add: update_conv')
      from Cons.IH [OF b d keys m, unfolded e] False show ?thesis by simp
    qed
  qed
qed

text \<open>
  \<open>plain P B\<close>: inside a labeled statement whose identity is in \<open>P\<close> there is no
  labeled statement with an identity in \<open>P\<close> and no block with an identity in \<open>B\<close>.
  \<open>top_only p V\<close>: in the statement list \<open>V\<close> the statement \<open>p\<close> occurs among the
  statements of the list only, not inside one of them. \<open>edit p pre keep\<close> is the
  function \<^verbatim>\<open>insertBefore\<close> and \<^verbatim>\<open>remove\<close> apply to the statements of a list.
\<close>

fun plain :: "nat set \<Rightarrow> nat set \<Rightarrow> node \<Rightarrow> bool"
  and plain_list :: "nat set \<Rightarrow> nat set \<Rightarrow> node list \<Rightarrow> bool" where
  "plain P B (Identifier n) = True"
| "plain P B (StringLiteral v) = True"
| "plain P B (TemplateElement r c t) = True"
| "plain P B (MemberExpression obj name) = plain P B obj"
| "plain P B (ComputedMemberExpression obj prop) = (plain P B obj \<and> plain P B prop)"
| "plain P B (CallExpression callee args) = (plain P B callee \<and> plain_list P B args)"
| "plain P B (ExpressionStatement e) = plain P B e"
| "plain P B (LabeledStatement tag label body) =
     ((tag \<in> P \<longrightarrow> set (labeled_tags body) \<inter> P = {} \<and> set (block_tags body) \<inter> B = {}) \<and>
      plain P B body)"
| "plain P B (BlockStatement tag body) = plain_list P B body"
| "plain P B (VariableDeclaration kind ds) = plain_list P B ds"
| "plain P B (VariableDeclarator i init) = (plain P B i \<and> plain P B init)"
| "plain P B (GetSymbolFunction g) = True"
| "plain P B (Other ty children) = plain_list P B children"
| "plain_list P B [] = True"
| "plain_list P B (x # xs) = (plain P B x \<and> plain_list P B xs)"

fun inner :: "node \<Rightarrow> nat list" where
  "inner (LabeledStatement tag label body) = labeled_tags body"
| "inner n = labeled_tags n"

definition top_only :: "nat \<Rightarrow> node list \<Rightarrow> bool" where
  "top_only p V \<longleftrightarrow> (\<forall>y \<in> set V. p \<notin> set (inner y))"

definition edit :: "nat \<Rightarrow> node list \<Rightarrow> bool \<Rightarrow> node \<Rightarrow> node list" where
  "edit p pre keep x = (if is_statement p x then pre @ (if keep then [x] else []) else [x])"

definition edit_list :: "nat \<Rightarrow> node list \<Rightarrow> bool \<Rightarrow> node list \<Rightarrow> node list" where
  "edit_list p pre keep V = concat (map (edit p pre keep) V)"

lemma edit_match: "is_statement p x \<Longrightarrow> edit p pre keep x = pre @ (if keep then [x] else [])"
  by (simp add: edit_def)

lemma edit_skip: "\<not> is_statement p x \<Longrightarrow> edit p pre keep x = [x]"
  by (simp add: edit_def)

lemma insertBefore_edit:
  "insertBefore p new prog = Program (splice_stmts (edit p [new] True) (body_of prog))"
proof -
  have "(\<lambda>x. if is_statement p x then [new, x] else [x]) = edit p [new] True"
    by (auto simp: fun_eq_iff edit_match edit_skip)
  then show ?thesis by (simp add: insertBefore_def)
qed

lemma remove_path_edit:
  "remove_path p prog = Program (splice_stmts (edit p [] False) (body_of prog))"
proof -
  have "(\<lambda>x. if is_statement p x then [] else [x]) = edit p [] False"
    by (auto simp: fun_eq_iff edit_match edit_skip)
  then show ?thesis by (simp add: remove_path_def)
qed

lemma governed_list_append:
  "governed_list K k c (xs @ ys) = governed_list K k c xs @ governed_list K k c ys"
  by (induction xs) auto

lemma erase_list_append:
  "erase_list K c (xs @ ys) = erase_list K c xs @ erase_list K c ys"
  by (induction xs) auto

lemma labeled_tags_list_append:
  "labeled_tags_list (xs @ ys) = labeled_tags_list xs @ labeled_tags_list ys"
  by (induction xs) auto

lemma block_tags_list_append:
  "block_tags_list (xs @ ys) = block_tags_list xs @ block_tags_list ys"
  by (induction xs) auto

lemma plain_list_append: "plain_list P B (xs @ ys) = (plain_list P B xs \<and> plain_list P B ys)"
  by (induction xs) auto

lemma governed_nonempty:
  "governed K k c n \<noteq> [] \<Longrightarrow> k \<noteq> [] \<and> hd k \<in> set (block_tags n)"
  "governed_list K k c xs \<noteq> [] \<Longrightarrow> k \<noteq> [] \<and> hd k \<in> set (block_tags_list xs)"
  by (induction K k c n and K k c xs rule: governed_governed_list.induct)
     (auto split: if_splits)

lemma inner_subset: "set (inner y) \<subseteq> set (labeled_tags y)"
  by (cases y) auto

lemma is_statement_erase: "is_statement p (erase K c x) = is_statement p x"
  by (cases x) auto

lemma splice_absent:
  "(\<forall>x. \<not> is_statement p x \<longrightarrow> f x = [x]) \<Longrightarrow> p \<notin> set (labeled_tags n) \<Longrightarrow> splice f n = n"
  "(\<forall>x. \<not> is_statement p x \<longrightarrow> f x = [x]) \<Longrightarrow> p \<notin> set (labeled_tags_list xs) \<Longrightarrow> splice_stmts f xs = xs"
  "(\<forall>x. \<not> is_statement p x \<longrightarrow> f x = [x]) \<Longrightarrow> p \<notin> set (labeled_tags_list xs) \<Longrightarrow> splice_children f xs = xs"
proof (induction f n and f xs and f xs rule: splice_splice_stmts_splice_children.induct)
  case (15 f x xs)
  from "15.prems"(2) have nx: "p \<notin> set (labeled_tags x)" and nxs: "p \<notin> set (labeled_tags_list xs)"
    by simp_all
  from nx have "\<not> is_statement p x" by (cases x) auto
  with "15.prems"(1) "15.IH"(1) [OF "15.prems"(1) nx] "15.IH"(2) [OF "15.prems"(1) nxs]
  show ?case by simp
qed auto

lemma edit_other: "\<forall>x. \<not> is_statement p x \<longrightarrow> edit p pre keep x = [x]"
  by (simp add: edit_skip)

lemma erase_splice_top:
  "top_only p (erase_list K c xs) \<Longrightarrow>
     erase_list K c (splice_stmts (edit p pre keep) xs) =
       edit_list p (erase_list K c pre) keep (erase_list K c xs)"
proof (induction xs)
  case Nil
  then show ?case by (simp add: edit_list_def)
next
  case (Cons x xs)
  from Cons.prems have tx: "p \<notin> set (inner (erase K c x))" and txs: "top_only p (erase_list K c xs)"
    by (simp_all add: top_only_def)
  note ih = Cons.IH [OF txs]
  show ?case
  proof (cases "is_statement p x")
    case True
    then obtain l b where x: "x = LabeledStatement p l b" by (cases x) auto
    with tx have "p \<notin> set (labeled_tags (erase K c b))" by simp
    from splice_erase(1) [OF edit_other this]
    have "erase K c (splice (edit p pre keep) b) = erase K c b" .
    with ih x show ?thesis
      by (cases keep) (simp_all add: edit_list_def edit_match erase_list_append)
  next
    case False
    with tx have "p \<notin> set (labeled_tags (erase K c x))" by (cases x) auto
    from splice_erase(1) [OF edit_other this]
    have e: "erase K c (splice (edit p pre keep) x) = erase K c x" .
    from False have "\<not> is_statement p (splice (edit p pre keep) x)"
      by (simp add: is_statement_splice)
    with ih e False show ?thesis
      by (simp add: edit_list_def edit_skip is_statement_erase)
  qed
qed


lemma plain_no_tags:
  "set (labeled_tags n) \<inter> P = {} \<Longrightarrow> plain P B n"
  "set (labeled_tags_list xs) \<inter> P = {} \<Longrightarrow> plain_list P B xs"
  by (induction P B n and P B xs rule: plain_plain_list.induct) auto

lemma find_labeled_plain:
  "find_labeled p n = Some b \<Longrightarrow> plain P B n \<Longrightarrow> p \<in> P \<Longrightarrow>
     set (labeled_tags b) \<inter> P = {} \<and> set (block_tags b) \<inter> B = {}"
  "find_labeled_list p xs = Some b \<Longrightarrow> plain_list P B xs \<Longrightarrow> p \<in> P \<Longrightarrow>
     set (labeled_tags b) \<inter> P = {} \<and> set (block_tags b) \<inter> B = {}"
  by (induction p n and p xs rule: find_labeled_find_labeled_list.induct)
     (auto split: option.splits if_splits)

lemma splice_plain:
  "f = edit p pre keep \<Longrightarrow> plain P B n \<Longrightarrow> p \<in> P \<Longrightarrow> set (labeled_tags_list pre) \<inter> P = {} \<Longrightarrow>
     plain P B (splice f n)"
  "f = edit p pre keep \<Longrightarrow> plain_list P B xs \<Longrightarrow> p \<in> P \<Longrightarrow> set (labeled_tags_list pre) \<inter> P = {} \<Longrightarrow>
     plain_list P B (splice_stmts f xs)"
  "f = edit p pre keep \<Longrightarrow> plain_list P B xs \<Longrightarrow> p \<in> P \<Longrightarrow> set (labeled_tags_list pre) \<inter> P = {} \<Longrightarrow>
     plain_list P B (splice_children f xs)"
proof (induction f n and f xs and f xs rule: splice_splice_stmts_splice_children.induct)
  case (8 f tag label body)
  show ?case
  proof (cases "tag \<in> P")
    case True
    with "8.prems"(2) have "set (labeled_tags body) \<inter> P = {}" by simp
    with "8.prems"(3) have "p \<notin> set (labeled_tags body)" by auto
    from splice_absent(1) [OF edit_other this] "8.prems"(1) have "splice f body = body" by simp
    with "8.prems"(2) show ?thesis by simp
  next
    case False
    with "8.IH" [OF "8.prems"(1) _ "8.prems"(3,4)] "8.prems"(2) show ?thesis by simp
  qed
next
  case (15 f x xs)
  from "15.prems"(2) have px: "plain P B x" and pxs: "plain_list P B xs" by simp_all
  note ih1 = "15.IH"(1) [OF "15.prems"(1) px "15.prems"(3,4)]
  note ih2 = "15.IH"(2) [OF "15.prems"(1) pxs "15.prems"(3,4)]
  have pl: "plain_list P B pre" using "15.prems"(4) by (rule plain_no_tags)
  have "plain_list P B (f (splice f x))"
  proof (cases "is_statement p (splice f x)")
    case True
    with ih1 pl show ?thesis
      unfolding "15.prems"(1) by (cases keep) (simp_all add: edit_match plain_list_append)
  next
    case False
    with ih1 show ?thesis
      unfolding "15.prems"(1) by (simp add: edit_skip)
  qed
  with ih2 show ?case by (simp add: plain_list_append)
qed auto

lemma splice_governed:
  "f = edit p pre keep \<Longrightarrow> plain P B n \<Longrightarrow> p \<in> P \<Longrightarrow> k = [] \<or> hd k \<in> B \<Longrightarrow>
     (\<forall>V \<in> set (governed K k c n). top_only p V) \<Longrightarrow> (\<forall>c'. governed_list K k c' pre = []) \<Longrightarrow>
     governed K k c (splice f n) = map (edit_list p (erase_list K k pre) keep) (governed K k c n)"
  "f = edit p pre keep \<Longrightarrow> plain_list P B xs \<Longrightarrow> p \<in> P \<Longrightarrow> k = [] \<or> hd k \<in> B \<Longrightarrow>
     (\<forall>V \<in> set (governed_list K k c xs). top_only p V) \<Longrightarrow> (\<forall>c'. governed_list K k c' pre = []) \<Longrightarrow>
     governed_list K k c (splice_stmts f xs) = map (edit_list p (erase_list K k pre) keep) (governed_list K k c xs)"
  "f = edit p pre keep \<Longrightarrow> plain_list P B xs \<Longrightarrow> p \<in> P \<Longrightarrow> k = [] \<or> hd k \<in> B \<Longrightarrow>
     (\<forall>V \<in> set (governed_list K k c xs). top_only p V) \<Longrightarrow> (\<forall>c'. governed_list K k c' pre = []) \<Longrightarrow>
     governed_list K k c (splice_children f xs) = map (edit_list p (erase_list K k pre) keep) (governed_list K k c xs)"
proof (induction f n and f xs and f xs arbitrary: c and c and c
        rule: splice_splice_stmts_splice_children.induct)
  case (9 f tag body)
  show ?case
  proof (cases "tag # c = k")
    case True
    with "9.prems"(5) have "top_only p (erase_list K k body)" by simp
    from erase_splice_top [OF this] True "9.prems"(1) show ?thesis by simp
  next
    case False
    with "9.IH" [OF "9.prems"(1) _ "9.prems"(3,4) _ "9.prems"(6), of "tag # c"] "9.prems"(2,5)
    show ?thesis by simp
  qed
next
  case (15 f x xs)
  from "15.prems"(2) have px: "plain P B x" and pxs: "plain_list P B xs" by simp_all
  from "15.prems"(5) have tx: "\<forall>V \<in> set (governed K k c x). top_only p V"
    and txs: "\<forall>V \<in> set (governed_list K k c xs). top_only p V" by simp_all
  note ih1 = "15.IH"(1) [OF "15.prems"(1) px "15.prems"(3,4) tx "15.prems"(6)]
  note ih2 = "15.IH"(2) [OF "15.prems"(1) pxs "15.prems"(3,4) txs "15.prems"(6)]
  have "governed_list K k c (f (splice f x)) =
          map (edit_list p (erase_list K k pre) keep) (governed K k c x)"
  proof (cases "is_statement p x")
    case False
    then have "\<not> is_statement p (splice f x)" by (simp add: is_statement_splice)
    then show ?thesis using ih1 "15.prems"(1) by (simp add: edit_skip)
  next
    case True
    then have m: "is_statement p (splice f x)" by (simp add: is_statement_splice)
    show ?thesis
    proof (cases keep)
      case True
      with m ih1 "15.prems"(1,6) show ?thesis
        by (simp add: edit_match governed_list_append)
    next
      case False
      from \<open>is_statement p x\<close> obtain l b where x: "x = LabeledStatement p l b" by (cases x) auto
      with px "15.prems"(3) have bt: "set (block_tags b) \<inter> B = {}" by simp
      have "governed K k c x = []"
      proof (rule ccontr)
        assume "governed K k c x \<noteq> []"
        from governed_nonempty(1) [OF this] x have "k \<noteq> []" and "hd k \<in> set (block_tags b)"
          by simp_all
        with "15.prems"(4) bt show False by auto
      qed
      with False m "15.prems"(1,6) show ?thesis
        by (simp add: edit_match)
    qed
  qed
  with ih2 show ?case by (simp add: governed_list_append)
qed auto

text \<open>
  \<^verbatim>\<open>finalize\<close> and \<^verbatim>\<open>remove\<close> of a namespace, seen on a governed subtree: the
  declaration is put before the statement \<open>path\<close> where that statement is one of the
  statements of the block, and nothing else changes.
\<close>

definition declares :: "string \<Rightarrow> TraitNamespace \<Rightarrow> node \<Rightarrow> bool" where
  "declares g ns d \<longleftrightarrow>
     (\<exists>exprs. d = VariableDeclaration ''const'' (map (variableDeclarator g exprs) (symbols ns)))"

lemma splice_governed_program:
  assumes "plain_list P B (body_of t)" and "p \<in> P" and "k = [] \<or> hd k \<in> B"
    and "\<forall>V \<in> set (governed_program K k t). top_only p V"
    and "\<forall>c'. governed_list K k c' pre = []"
  shows "governed_program K k (Program (splice_stmts (edit p pre keep) (body_of t))) =
           map (edit_list p (erase_list K k pre) keep) (governed_program K k t)"
proof (cases "k = []")
  case True
  with assms(4) have "top_only p (erase_list K [] (body_of t))"
    by (simp add: governed_program_def)
  from erase_splice_top [OF this] True show ?thesis
    by (simp add: governed_program_def)
next
  case False
  with assms(4) have "\<forall>V \<in> set (governed_list K k [] (body_of t)). top_only p V"
    by (simp add: governed_program_def)
  from splice_governed(2) [OF refl assms(1,2,3) this assms(5)] False show ?thesis
    by (simp add: governed_program_def)
qed

lemma splice_plain_program:
  assumes "plain_list P B (body_of t)" and "p \<in> P" and "set (labeled_tags_list pre) \<inter> P = {}"
  shows "plain_list P B (body_of (Program (splice_stmts (edit p pre keep) (body_of t))))"
  using splice_plain(2) [OF refl assms] by simp

lemma edit_list_nil_keep: "edit_list p [] True V = V"
  by (induction V) (auto simp: edit_list_def edit_def)

lemma top_only_absent: "p \<notin> set (labeled_tags_list V) \<Longrightarrow> top_only p V"
proof (induction V)
  case Nil
  then show ?case by (simp add: top_only_def)
next
  case (Cons y V)
  with inner_subset [of y] show ?case by (auto simp: top_only_def)
qed

lemma is_statement_tag: "is_statement p y \<Longrightarrow> p \<in> set (labeled_tags y)"
  by (cases y) auto

lemma edit_list_absent: "p \<notin> set (labeled_tags_list V) \<Longrightarrow> edit_list p ds keep V = V"
proof (induction V)
  case Nil
  then show ?case by (simp add: edit_list_def)
next
  case (Cons y V)
  then have "\<not> is_statement p y" using is_statement_tag by auto
  with Cons show ?case by (simp add: edit_list_def edit_skip)
qed

lemma edit_list_Cons: "edit_list p ds keep (y # V) = edit p ds keep y @ edit_list p ds keep V"
  by (simp add: edit_list_def)

lemma edit_list_append: "edit_list p ds keep (V @ W) = edit_list p ds keep V @ edit_list p ds keep W"
  by (simp add: edit_list_def)

lemma edit_list_skip_all: "\<forall>d \<in> set ds. \<not> is_statement p d \<Longrightarrow> edit_list p ds' keep ds = ds"
  by (induction ds) (auto simp: edit_list_def edit_skip)

lemma edit_list_twice:
  assumes "\<forall>d \<in> set ds1. \<not> is_statement p d"
  shows "edit_list p ds2 keep (edit_list p ds1 True V) = edit_list p (ds1 @ ds2) keep V"
proof (induction V)
  case Nil
  then show ?case by (simp add: edit_list_def)
next
  case (Cons y V)
  show ?case
  proof (cases "is_statement p y")
    case True
    with Cons edit_list_skip_all [OF assms, of ds2 keep] show ?thesis
      by (simp add: edit_list_Cons edit_match edit_list_append)
  next
    case False
    with Cons show ?thesis by (simp add: edit_list_Cons edit_skip)
  qed
qed

lemma top_only_edit:
  assumes "top_only p V" and "p \<notin> set (labeled_tags_list ds)"
  shows "top_only p (edit_list q ds keep V)"
proof -
  have d: "\<forall>d \<in> set ds. p \<notin> set (inner d)"
    using top_only_absent [OF assms(2)] by (simp add: top_only_def)
  from assms(1) show ?thesis
  proof (induction V)
    case Nil
    then show ?case by (simp add: edit_list_def)
  next
    case (Cons y V)
    then have a: "p \<notin> set (inner y)" and b: "top_only p (edit_list q ds keep V)"
      by (simp_all add: top_only_def)
    from a b d show ?case
      by (cases "is_statement q y"; cases keep)
         (auto simp: edit_list_Cons edit_match edit_skip top_only_def)
  qed
qed

lemma labeled_tags_edit_list:
  "set (labeled_tags_list (edit_list q ds keep V)) \<subseteq> set (labeled_tags_list V) \<union> set (labeled_tags_list ds)"
proof (induction V)
  case Nil
  then show ?case by (simp add: edit_list_def)
next
  case (Cons y V)
  then show ?case
    by (cases "is_statement q y"; cases keep)
       (auto simp: edit_list_Cons edit_match edit_skip labeled_tags_list_append)
qed

lemma erase_variableDeclarator:
  "erase K c (variableDeclarator g exprs e) = variableDeclarator g (erase_list K c exprs) e"
  by (cases e) (simp add: variableDeclarator_def)

lemma erase_declarators:
  "erase_list K c (map (variableDeclarator g exprs) syms) =
     map (variableDeclarator g (erase_list K c exprs)) syms"
  by (induction syms) (simp_all add: erase_variableDeclarator)

lemma governed_declarators:
  "governed_list K k c exprs = [] \<Longrightarrow> governed_list K k c (map (variableDeclarator g exprs) syms) = []"
  by (induction syms) (auto simp: variableDeclarator_def)

lemma labeled_tags_declarators:
  "set (labeled_tags_list (map (variableDeclarator g exprs) syms)) \<subseteq> set (labeled_tags_list exprs)"
  by (induction syms) (auto simp: variableDeclarator_def)

lemma erase_labeled_list:
  "set (labeled_tags_list (erase_list K c xs)) \<subseteq> set (labeled_tags_list xs)"
  by (rule erase_labeled(2))

lemma provider_expression_plain:
  assumes "provider_expression t p = Some e" and "plain_list P B (body_of t)" and "p \<in> P"
  shows "set (labeled_tags e) \<inter> P = {} \<and> set (block_tags e) \<inter> B = {}"
proof -
  from assms(1) have "find_labeled_list p (body_of t) = Some (ExpressionStatement e)"
    by (auto simp: provider_expression_def split: option.splits node.splits)
  from find_labeled_plain(2) [OF this assms(2,3)] show ?thesis by simp
qed

lemma providing_expressions_plain:
  assumes "plain_list P B (body_of t)" and "set ps \<subseteq> P"
  shows "set (labeled_tags_list (List.map_filter (provider_expression t) ps)) \<inter> P = {} \<and>
         set (block_tags_list (List.map_filter (provider_expression t) ps)) \<inter> B = {}"
  using assms(2)
proof (induction ps)
  case Nil
  then show ?case by (simp add: List.map_filter_def)
next
  case (Cons p ps)
  then have ih: "set (labeled_tags_list (List.map_filter (provider_expression t) ps)) \<inter> P = {} \<and>
         set (block_tags_list (List.map_filter (provider_expression t) ps)) \<inter> B = {}"
    and p: "p \<in> P" by simp_all
  show ?case
  proof (cases "provider_expression t p")
    case None
    with ih show ?thesis by (simp add: List.map_filter_def)
  next
    case (Some e)
    from provider_expression_plain [OF Some assms(1) p] ih Some show ?thesis
      by (auto simp: List.map_filter_def)
  qed
qed

lemma finalize_governed:
  assumes pl: "plain_list P B (body_of t)" and p: "path ns \<in> P" and ps: "set (providers ns) \<subseteq> P"
    and k: "k = [] \<or> hd k \<in> B"
    and top: "\<forall>V \<in> set (governed_program K k t). top_only (path ns) V"
  shows "\<exists>ds. governed_program K k (finalize g t ns) =
                 map (edit_list (path ns) ds True) (governed_program K k t) \<and>
               list_all2 (declares g) (if symbols ns = [] then [] else [ns]) ds \<and>
               set (labeled_tags_list ds) \<inter> P = {} \<and>
               plain_list P B (body_of (finalize g t ns))"
proof (cases "symbols ns = []")
  case True
  then have "finalize g t ns = t" by (simp add: finalize_def)
  with True pl show ?thesis
    by (intro exI [of _ "[]"]) (simp add: edit_list_nil_keep cong: map_cong)
next
  case False
  let ?exprs = "List.map_filter (provider_expression t) (providers ns)"
  let ?new = "VariableDeclaration ''const'' (map (variableDeclarator g ?exprs) (symbols ns))"
  from providing_expressions_plain [OF pl ps]
  have le: "set (labeled_tags_list ?exprs) \<inter> P = {}" and be: "set (block_tags_list ?exprs) \<inter> B = {}"
    by simp_all
  have ge: "governed_list K k c' ?exprs = []" for c'
  proof (rule ccontr)
    assume "governed_list K k c' ?exprs \<noteq> []"
    from governed_nonempty(2) [OF this] k be show False by auto
  qed
  have gn: "\<forall>c'. governed_list K k c' [?new] = []"
    using governed_declarators [OF ge] by simp
  have ln: "set (labeled_tags_list [?new]) \<inter> P = {}"
    using labeled_tags_declarators [of g ?exprs "symbols ns"] le by auto
  have f: "finalize g t ns = Program (splice_stmts (edit (path ns) [?new] True) (body_of t))"
    using False by (simp add: finalize_def insertBefore_edit)
  let ?ds = "erase_list K k [?new]"
  have 1: "governed_program K k (finalize g t ns) =
             map (edit_list (path ns) ?ds True) (governed_program K k t)"
    unfolding f by (rule splice_governed_program [OF pl p k top gn])
  have 2: "list_all2 (declares g) (if symbols ns = [] then [] else [ns]) ?ds"
    using False by (auto simp: declares_def erase_declarators)
  have 3: "set (labeled_tags_list ?ds) \<inter> P = {}"
    using ln erase_labeled_list [of K k "[?new]"] by blast
  have 4: "plain_list P B (body_of (finalize g t ns))"
    unfolding f by (rule splice_plain_program [OF pl p ln])
  from 1 2 3 4 show ?thesis by blast
qed

lemma remove_governed:
  assumes pl: "plain_list P B (body_of t)" and p: "path ns \<in> P"
    and k: "k = [] \<or> hd k \<in> B"
    and top: "\<forall>V \<in> set (governed_program K k t). top_only (path ns) V"
  shows "governed_program K k (remove t ns) =
           map (edit_list (path ns) [] False) (governed_program K k t) \<and>
         plain_list P B (body_of (remove t ns))"
proof -
  have f: "remove t ns = Program (splice_stmts (edit (path ns) [] False) (body_of t))"
    by (simp add: remove_def remove_path_edit)
  have "governed_program K k (remove t ns) =
          map (edit_list (path ns) (erase_list K k []) False) (governed_program K k t)"
    unfolding f by (rule splice_governed_program [OF pl p k top]) simp
  moreover have "plain_list P B (body_of (remove t ns))"
    unfolding f by (rule splice_plain_program [OF pl p]) simp
  ultimately show ?thesis by simp
qed

lemma not_statement_absent: "p \<notin> set (labeled_tags_list ds) \<Longrightarrow> \<forall>d \<in> set ds. \<not> is_statement p d"
proof (induction ds)
  case Nil
  then show ?case by simp
next
  case (Cons d ds)
  then show ?case using is_statement_tag [of p d] by auto
qed

lemma foldl_finalize_governed:
  assumes "plain_list P B (body_of t)"
    and "\<forall>ns \<in> set nss. path ns \<in> P \<and> set (providers ns) \<subseteq> P"
    and "k = [] \<or> hd k \<in> B" and "p \<in> P"
    and "governed_program K k t = [V]" and "top_only p V"
    and "\<forall>ns \<in> set nss. path ns \<noteq> p \<longrightarrow> path ns \<notin> set (labeled_tags_list V)"
  shows "\<exists>ds. governed_program K k (foldl (finalize g) t nss) = [edit_list p ds True V] \<and>
               list_all2 (declares g) (filter (\<lambda>ns. path ns = p \<and> symbols ns \<noteq> []) nss) ds \<and>
               set (labeled_tags_list ds) \<inter> P = {} \<and>
               plain_list P B (body_of (foldl (finalize g) t nss))"
  using assms(1,2,5,6,7)
proof (induction nss arbitrary: t V)
  case Nil
  then show ?case
    by (intro exI [of _ "[]"]) (simp add: edit_list_nil_keep)
next
  case (Cons ns nss)
  from Cons.prems(2) have pn: "path ns \<in> P" and ps: "set (providers ns) \<subseteq> P"
    and rest: "\<forall>m \<in> set nss. path m \<in> P \<and> set (providers m) \<subseteq> P"
    by simp_all
  from Cons.prems(5) have vis: "path ns \<noteq> p \<longrightarrow> path ns \<notin> set (labeled_tags_list V)"
    and vrest: "\<forall>m \<in> set nss. path m \<noteq> p \<longrightarrow> path m \<notin> set (labeled_tags_list V)"
    by simp_all
  have top: "\<forall>W \<in> set (governed_program K k t). top_only (path ns) W"
    using Cons.prems(3,4) vis top_only_absent by (cases "path ns = p") auto
  from finalize_governed [OF Cons.prems(1) pn ps assms(3) top, of g] Cons.prems(3)
  obtain ds1 where g1: "governed_program K k (finalize g t ns) = [edit_list (path ns) ds1 True V]"
    and d1: "list_all2 (declares g) (if symbols ns = [] then [] else [ns]) ds1"
    and l1: "set (labeled_tags_list ds1) \<inter> P = {}"
    and p1: "plain_list P B (body_of (finalize g t ns))"
    by auto
  show ?case
  proof (cases "path ns = p")
    case True
    let ?V = "edit_list p ds1 True V"
    from l1 assms(4) have np: "p \<notin> set (labeled_tags_list ds1)" by auto
    have t1: "top_only p ?V" by (rule top_only_edit [OF Cons.prems(4) np])
    have v1: "\<forall>m \<in> set nss. path m \<noteq> p \<longrightarrow> path m \<notin> set (labeled_tags_list ?V)"
    proof (intro ballI impI)
      fix m assume m: "m \<in> set nss" and "path m \<noteq> p"
      with vrest have "path m \<notin> set (labeled_tags_list V)" by simp
      moreover from rest m l1 have "path m \<notin> set (labeled_tags_list ds1)" by auto
      ultimately show "path m \<notin> set (labeled_tags_list ?V)"
        using labeled_tags_edit_list [of p ds1 True V] by blast
    qed
    from g1 True have g1': "governed_program K k (finalize g t ns) = [?V]" by simp
    from Cons.IH [OF p1 rest g1' t1 v1]
    obtain ds2 where g2: "governed_program K k (foldl (finalize g) (finalize g t ns) nss) = [edit_list p ds2 True ?V]"
      and d2: "list_all2 (declares g) (filter (\<lambda>ns. path ns = p \<and> symbols ns \<noteq> []) nss) ds2"
      and l2: "set (labeled_tags_list ds2) \<inter> P = {}"
      and p2: "plain_list P B (body_of (foldl (finalize g) (finalize g t ns) nss))"
      by auto
    have e: "edit_list p ds2 True ?V = edit_list p (ds1 @ ds2) True V"
      by (rule edit_list_twice [OF not_statement_absent [OF np]])
    have d: "list_all2 (declares g) (filter (\<lambda>ns. path ns = p \<and> symbols ns \<noteq> []) (ns # nss)) (ds1 @ ds2)"
    proof -
      have "filter (\<lambda>ns. path ns = p \<and> symbols ns \<noteq> []) (ns # nss) =
              (if symbols ns = [] then [] else [ns]) @ filter (\<lambda>ns. path ns = p \<and> symbols ns \<noteq> []) nss"
        using True by simp
      with list_all2_appendI [OF d1 d2] show ?thesis by simp
    qed
    have l: "set (labeled_tags_list (ds1 @ ds2)) \<inter> P = {}"
      using l1 l2 by (auto simp: labeled_tags_list_append)
    from g2 e d l p2 show ?thesis by (intro exI [of _ "ds1 @ ds2"]) simp
  next
    case False
    with vis have "path ns \<notin> set (labeled_tags_list V)" by simp
    from edit_list_absent [OF this] g1 have g1': "governed_program K k (finalize g t ns) = [V]" by simp
    from Cons.IH [OF p1 rest g1' Cons.prems(4) vrest] False show ?thesis by simp
  qed
qed

lemma edit_list_removed:
  "edit_list p [] False (edit_list p [] False V) = edit_list p [] False V"
  by (induction V) (auto simp: edit_list_def edit_def)

lemma foldl_remove_governed:
  assumes "plain_list P B (body_of t)"
    and "\<forall>ns \<in> set nss. path ns \<in> P"
    and "k = [] \<or> hd k \<in> B" and "p \<in> P"
    and "governed_program K k t = [V]" and "top_only p V"
    and "\<forall>ns \<in> set nss. path ns \<noteq> p \<longrightarrow> path ns \<notin> set (labeled_tags_list V)"
  shows "governed_program K k (foldl remove t nss) =
           [if p \<in> path ` set nss then edit_list p [] False V else V]"
  using assms(1,2,5,6,7)
proof (induction nss arbitrary: t V)
  case Nil
  then show ?case by simp
next
  case (Cons ns nss)
  from Cons.prems(2) have pn: "path ns \<in> P" and rest: "\<forall>m \<in> set nss. path m \<in> P"
    by simp_all
  from Cons.prems(5) have vis: "path ns \<noteq> p \<longrightarrow> path ns \<notin> set (labeled_tags_list V)"
    and vrest: "\<forall>m \<in> set nss. path m \<noteq> p \<longrightarrow> path m \<notin> set (labeled_tags_list V)"
    by simp_all
  have top: "\<forall>W \<in> set (governed_program K k t). top_only (path ns) W"
    using Cons.prems(3,4) vis top_only_absent by (cases "path ns = p") auto
  from remove_governed [OF Cons.prems(1) pn assms(3) top] Cons.prems(3)
  have g1: "governed_program K k (remove t ns) = [edit_list (path ns) [] False V]"
    and p1: "plain_list P B (body_of (remove t ns))"
    by simp_all
  show ?case
  proof (cases "path ns = p")
    case True
    let ?V = "edit_list p [] False V"
    have t1: "top_only p ?V" by (rule top_only_edit [OF Cons.prems(4)]) simp
    have v1: "\<forall>m \<in> set nss. path m \<noteq> p \<longrightarrow> path m \<notin> set (labeled_tags_list ?V)"
      using vrest labeled_tags_edit_list [of p "[]" False V] by auto
    from g1 True have g1': "governed_program K k (remove t ns) = [?V]" by simp
    from Cons.IH [OF p1 rest g1' t1 v1] True show ?thesis
      by (simp add: edit_list_removed)
  next
    case False
    with vis have "path ns \<notin> set (labeled_tags_list V)" by simp
    from edit_list_absent [OF this] g1 have g1': "governed_program K k (remove t ns) = [V]" by simp
    from Cons.IH [OF p1 rest g1' Cons.prems(4) vrest] False show ?thesis by simp
  qed
qed

lemma foldl_remove_plain:
  assumes "plain_list P B (body_of t)" and "\<forall>ns \<in> set nss. path ns \<in> P"
  shows "plain_list P B (body_of (foldl remove t nss))"
  using assms
proof (induction nss arbitrary: t)
  case Nil
  then show ?case by simp
next
  case (Cons ns nss)
  have "remove t ns = Program (splice_stmts (edit (path ns) [] False) (body_of t))"
    by (simp add: remove_def remove_path_edit)
  with splice_plain_program [OF Cons.prems(1), of "path ns" "[]" False] Cons.prems(2)
  have "plain_list P B (body_of (remove t ns))" by simp
  with Cons show ?case by simp
qed

lemma edit_list_replace:
  assumes "\<forall>d \<in> set ds. \<not> is_statement p d"
  shows "edit_list p [] False (edit_list p ds True V) = edit_list p ds False V"
  using edit_list_twice [OF assms, of "[]" False V] by simp

lemma clean_erase:
  "erase K c (clean n) = clean (erase K c n)"
  "erase_list K c (clean_list xs) = clean_list (erase_list K c xs)"
  by (induction n and xs arbitrary: c and c rule: clean_clean_list.induct) auto

lemma clean_governed:
  "governed K k c (clean n) = map clean_list (governed K k c n)"
  "governed_list K k c (clean_list xs) = map clean_list (governed_list K k c xs)"
  by (induction n and xs arbitrary: c and c rule: clean_clean_list.induct)
     (auto simp: clean_erase)

lemma clean_governed_program:
  "governed_program K k (clean_program t) = map clean_list (governed_program K k t)"
  by (simp add: governed_program_def clean_program_def clean_erase clean_governed)

text \<open>Step 3 keeps the identities of the tree, and what the map holds beside the symbols.\<close>

lemma rewrite_tags:
  "rewrite gen reg chain n st = Inr (n', st') \<Longrightarrow>
     labeled_tags n' = labeled_tags n \<and> block_tags n' = block_tags n"
  "rewrite_list gen reg chain xs st = Inr (xs', st') \<Longrightarrow>
     labeled_tags_list xs' = labeled_tags_list xs \<and> block_tags_list xs' = block_tags_list xs"
proof (induction gen reg chain n st and gen reg chain xs st
        arbitrary: n' st' and xs' st'
        rule: rewrite_rewrite_list.induct)
  case (4 gen reg chain obj name st)
  then show ?case
    by (cases "marker_object obj")
       (auto simp: marker_object_eq split: sum.splits if_splits prod.splits)
next
  case (5 gen reg chain obj prp st)
  then show ?case
    by (cases "marker_object obj")
       (auto simp: marker_object_eq split: sum.splits if_splits prod.splits)
qed (auto split: sum.splits if_splits)

lemma rewrite_plain:
  "rewrite gen reg chain n st = Inr (n', st') \<Longrightarrow> plain P B n \<Longrightarrow> plain P B n'"
  "rewrite_list gen reg chain xs st = Inr (xs', st') \<Longrightarrow> plain_list P B xs \<Longrightarrow> plain_list P B xs'"
proof (induction gen reg chain n st and gen reg chain xs st
        arbitrary: n' st' and xs' st'
        rule: rewrite_rewrite_list.induct)
  case (4 gen reg chain obj name st)
  then show ?case
    by (cases "marker_object obj")
       (auto simp: marker_object_eq split: sum.splits if_splits prod.splits)
next
  case (5 gen reg chain obj prp st)
  then show ?case
    by (cases "marker_object obj")
       (auto simp: marker_object_eq split: sum.splits if_splits prod.splits)
next
  case (8 gen reg chain tag label body st)
  then obtain body' where r: "rewrite gen reg chain body st = Inr (body', st')"
    and n': "n' = LabeledStatement tag label body'"
    by (auto split: sum.splits if_splits)
  from rewrite_tags(1) [OF r] "8.IH" [OF _ r] "8.prems" n' show ?case
    by (auto split: if_splits)
qed (auto split: sum.splits if_splits)

lemma traverse_at_tags:
  "traverse_at gen reg target chain n st = Inr (n', st') \<Longrightarrow>
     labeled_tags n' = labeled_tags n \<and> block_tags n' = block_tags n"
  "traverse_at_list gen reg target chain xs st = Inr (xs', st') \<Longrightarrow>
     labeled_tags_list xs' = labeled_tags_list xs \<and> block_tags_list xs' = block_tags_list xs"
  by (induction gen reg target chain n st and gen reg target chain xs st
        arbitrary: n' st' and xs' st'
        rule: traverse_at_traverse_at_list.induct)
     (auto split: sum.splits if_splits dest: rewrite_tags)

lemma traverse_at_plain:
  "traverse_at gen reg target chain n st = Inr (n', st') \<Longrightarrow> plain P B n \<Longrightarrow> plain P B n'"
  "traverse_at_list gen reg target chain xs st = Inr (xs', st') \<Longrightarrow> plain_list P B xs \<Longrightarrow> plain_list P B xs'"
proof (induction gen reg target chain n st and gen reg target chain xs st
        arbitrary: n' st' and xs' st'
        rule: traverse_at_traverse_at_list.induct)
  case (8 gen reg target chain tag label body st)
  then obtain body' where r: "traverse_at gen reg target chain body st = Inr (body', st')"
    and n': "n' = LabeledStatement tag label body'"
    by (auto split: sum.splits if_splits)
  from traverse_at_tags(1) [OF r] "8.IH" [OF r] "8.prems" n' show ?case
    by (auto split: if_splits)
qed (auto split: sum.splits if_splits dest: rewrite_plain)

lemma blockPath_traverse_plain:
  assumes "blockPath_traverse gen reg target prog st = Inr (prog', st')"
    and "plain_list P B (body_of prog)"
  shows "plain_list P B (body_of prog')"
  using assms rewrite_plain(2) [of gen reg "[]" "body_of prog" st _ st' P B]
    traverse_at_plain(2) [of gen reg target "[]" "body_of prog" st _ st' P B]
  by (auto simp: blockPath_traverse_def split: sum.splits if_splits)

lemma rewrite_all_plain:
  "rewrite_all gen blocks (prog, reg, uids) = Inr (prog', reg', uids') \<Longrightarrow>
   plain_list P B (body_of prog) \<Longrightarrow> plain_list P B (body_of prog')"
proof (induction blocks arbitrary: prog reg uids)
  case Nil
  then show ?case by simp
next
  case (Cons block blocks)
  show ?case
  proof (cases "map_of reg block")
    case None
    with Cons.prems(1) have "rewrite_all gen blocks (prog, reg, uids) = Inr (prog', reg', uids')"
      by simp
    from Cons.IH [OF this Cons.prems(2)] show ?thesis .
  next
    case (Some traitNS)
    with Cons.prems(1) obtain prog1 traitNS1 uids1 where
      a: "blockPath_traverse gen reg block prog (traitNS, uids) = Inr (prog1, traitNS1, uids1)"
      and b: "rewrite_all gen blocks (prog1, AList.update block traitNS1 reg, uids1) = Inr (prog', reg', uids')"
      by (auto split: sum.splits)
    from Cons.IH [OF b blockPath_traverse_plain [OF a Cons.prems(2)]] show ?thesis .
  qed
qed

lemma resolve_labeled_tags:
  "labeled_tags (resolve ident n) = labeled_tags n"
  "labeled_tags_list (resolve_list ident xs) = labeled_tags_list xs"
  by (induction ident n and ident xs rule: resolve_resolve_list.induct)
     (auto simp: marker_object_eq split: option.splits)

lemma is_statement_resolve: "is_statement p (resolve ident y) = is_statement p y"
  by (cases y) (auto split: option.splits)

lemma inner_resolve: "inner (resolve ident y) = inner y"
  by (cases y) (auto simp: resolve_labeled_tags marker_object_eq split: option.splits)

lemma top_only_resolve: "top_only p (resolve_list ident V) = top_only p V"
  by (induction V) (auto simp: top_only_def inner_resolve)

lemma blockPath_traverse_static:
  assumes "blockPath_traverse gen reg target prog (ns, uids) = Inr (prog', ns', uids')"
  shows "path ns' = path ns \<and> providers ns' = providers ns"
proof -
  have "extends ns' ns"
    using assms rewrite_spec(2) [of gen reg "[]" "body_of prog" "(ns, uids)"]
      traverse_at_extends(2) [of gen reg target "[]" "body_of prog" "(ns, uids)"]
    by (auto simp: blockPath_traverse_def follows_def split: sum.splits if_splits)
  then show ?thesis by (simp add: extends_def)
qed

lemma rewrite_all_static:
  "rewrite_all gen blocks (prog, reg, uids) = Inr (prog', reg', uids') \<Longrightarrow> map_of reg' j = Some ns' \<Longrightarrow>
     \<exists>ns. map_of reg j = Some ns \<and> path ns' = path ns \<and> providers ns' = providers ns"
proof (induction blocks arbitrary: prog reg uids)
  case Nil
  then show ?case by simp
next
  case (Cons block blocks)
  show ?case
  proof (cases "map_of reg block")
    case None
    with Cons.prems(1) have "rewrite_all gen blocks (prog, reg, uids) = Inr (prog', reg', uids')"
      by simp
    from Cons.IH [OF this Cons.prems(2)] show ?thesis .
  next
    case (Some traitNS)
    with Cons.prems(1) obtain prog1 traitNS1 uids1 where
      a: "blockPath_traverse gen reg block prog (traitNS, uids) = Inr (prog1, traitNS1, uids1)"
      and b: "rewrite_all gen blocks (prog1, AList.update block traitNS1 reg, uids1) = Inr (prog', reg', uids')"
      by (auto split: sum.splits)
    from Cons.IH [OF b Cons.prems(2)] obtain ns1 where
      m: "map_of (AList.update block traitNS1 reg) j = Some ns1"
      and s: "path ns' = path ns1 \<and> providers ns' = providers ns1" by blast
    show ?thesis
    proof (cases "j = block")
      case True
      with m have "ns1 = traitNS1" by (simp add: update_conv')
      with blockPath_traverse_static [OF a] s Some True show ?thesis by simp
    next
      case False
      with m have "map_of reg j = Some ns1" by (simp add: update_conv')
      with s show ?thesis by blast
    qed
  qed
qed

lemma inherit_all_static:
  "inherit_all prog reg blocks = Inr reg' \<Longrightarrow> map_of reg' j = Some ns' \<Longrightarrow>
     \<exists>ns. map_of reg j = Some ns \<and> path ns' = path ns \<and> symbols ns' = symbols ns"
proof (induction blocks arbitrary: reg)
  case Nil
  then show ?case by simp
next
  case (Cons block blocks)
  show ?case
  proof (cases "map_of reg block")
    case None
    with Cons.prems(1) have "inherit_all prog reg blocks = Inr reg'" by simp
    from Cons.IH [OF this Cons.prems(2)] show ?thesis .
  next
    case (Some ns)
    with Cons.prems(1) obtain ns1 where a: "inherit_from prog reg ns (parentPaths block) = Inr ns1"
      and b: "inherit_all prog (AList.update block ns1 reg) blocks = Inr reg'"
      by (auto split: sum.splits)
    from Cons.IH [OF b Cons.prems(2)] obtain ns2 where
      m: "map_of (AList.update block ns1 reg) j = Some ns2"
      and s: "path ns' = path ns2 \<and> symbols ns' = symbols ns2" by blast
    show ?thesis
    proof (cases "j = block")
      case True
      with m have "ns2 = ns1" by (simp add: update_conv')
      with inherit_from_Inr [OF a] s Some True show ?thesis by simp
    next
      case False
      with m have "map_of reg j = Some ns2" by (simp add: update_conv')
      with s show ?thesis by blast
    qed
  qed
qed

text \<open>
  In a tree whose labeled statements are distinct nodes the governed subtrees of two
  namespaces share no labeled statement, and in a tree whose blocks are distinct nodes a
  namespace has one governed subtree.
\<close>

lemma governed_labeled:
  "V \<in> set (governed K k c n) \<Longrightarrow> set (labeled_tags_list V) \<subseteq> set (labeled_tags n)"
  "V \<in> set (governed_list K k c xs) \<Longrightarrow> set (labeled_tags_list V) \<subseteq> set (labeled_tags_list xs)"
proof (induction K k c n and K k c xs rule: governed_governed_list.induct)
  case (9 K k chain tag body)
  then show ?case using erase_labeled(2) [of K k body] by (auto split: if_splits)
qed auto

lemma erase_distinct:
  "distinct (labeled_tags n) \<Longrightarrow> distinct (labeled_tags (erase K c n))"
  "distinct (labeled_tags_list xs) \<Longrightarrow> distinct (labeled_tags_list (erase_list K c xs))"
proof (induction K c n and K c xs rule: erase_erase_list.induct)
  case (5 K chain obj prp)
  then show ?case
    using erase_labeled(1) [of K chain obj] erase_labeled(1) [of K chain prp] by auto
next
  case (6 K chain callee args)
  then show ?case
    using erase_labeled(1) [of K chain callee] erase_labeled(2) [of K chain args] by auto
next
  case (8 K chain tag label body)
  then show ?case using erase_labeled(1) [of K chain body] by auto
next
  case (11 K chain i init)
  then show ?case
    using erase_labeled(1) [of K chain i] erase_labeled(1) [of K chain init] by auto
next
  case (15 K chain x xs)
  then show ?case
    using erase_labeled(1) [of K chain x] erase_labeled(2) [of K chain xs] by auto
qed auto

lemma governed_distinct:
  "distinct (labeled_tags n) \<Longrightarrow> V \<in> set (governed K k c n) \<Longrightarrow> distinct (labeled_tags_list V)"
  "distinct (labeled_tags_list xs) \<Longrightarrow> V \<in> set (governed_list K k c xs) \<Longrightarrow> distinct (labeled_tags_list V)"
proof (induction K k c n and K k c xs rule: governed_governed_list.induct)
  case (9 K k chain tag body)
  then show ?case using erase_distinct(2) [of body K k] by (auto split: if_splits)
qed auto

lemma distinct_top_only:
  "distinct (labeled_tags_list V) \<Longrightarrow> y \<in> set V \<Longrightarrow> is_statement p y \<Longrightarrow> top_only p V"
proof (induction V)
  case Nil
  then show ?case by simp
next
  case (Cons z V)
  from Cons.prems(1) have dz: "distinct (labeled_tags z)" and dV: "distinct (labeled_tags_list V)"
    and dj: "set (labeled_tags z) \<inter> set (labeled_tags_list V) = {}" by simp_all
  show ?case
  proof (cases "is_statement p z")
    case True
    then obtain l b where z: "z = LabeledStatement p l b" by (cases z) auto
    with dz have "p \<notin> set (inner z)" by simp
    moreover from z dj have "p \<notin> set (labeled_tags_list V)" by auto
    then have "top_only p V" by (rule top_only_absent)
    ultimately show ?thesis by (simp add: top_only_def)
  next
    case False
    with Cons.prems(2,3) have yV: "y \<in> set V" by auto
    from Cons.IH [OF dV yV Cons.prems(3)] have tV: "top_only p V" .
    from yV Cons.prems(3) have "p \<in> set (labeled_tags_list V)"
    proof (induction V)
      case Nil
      then show ?case by simp
    next
      case (Cons a V)
      then show ?case using is_statement_tag [of p a] by auto
    qed
    with dj have "p \<notin> set (labeled_tags z)" by auto
    with inner_subset [of z] have "p \<notin> set (inner z)" by auto
    with tV show ?thesis by (simp add: top_only_def)
  qed
qed

lemma governed_invisible:
  "j \<in> K \<Longrightarrow> distinct (labeled_tags n) \<Longrightarrow> V \<in> set (governed K j c n) \<Longrightarrow>
     set (labeled_tags_list V) \<inter> set (labeled_tags (erase K c n)) = {}"
  "j \<in> K \<Longrightarrow> distinct (labeled_tags_list xs) \<Longrightarrow> V \<in> set (governed_list K j c xs) \<Longrightarrow>
     set (labeled_tags_list V) \<inter> set (labeled_tags_list (erase_list K c xs)) = {}"
proof (induction K j c n and K j c xs rule: governed_governed_list.induct)
  case (5 K k chain obj prp)
  then show ?case
    using erase_labeled(1) [of K chain obj] erase_labeled(1) [of K chain prp]
      governed_labeled(1) [of V K k chain obj] governed_labeled(1) [of V K k chain prp]
    by (auto; blast)
next
  case (6 K k chain callee args)
  then show ?case
    using erase_labeled(1) [of K chain callee] erase_labeled(2) [of K chain args]
      governed_labeled(1) [of V K k chain callee] governed_labeled(2) [of V K k chain args]
    by (auto; blast)
next
  case (8 K k chain tag label body)
  then show ?case
    using governed_labeled(1) [of V K k chain body] by auto
next
  case (9 K k chain tag body)
  then show ?case by (auto split: if_splits)
next
  case (11 K k chain i init)
  then show ?case
    using erase_labeled(1) [of K chain i] erase_labeled(1) [of K chain init]
      governed_labeled(1) [of V K k chain i] governed_labeled(1) [of V K k chain init]
    by (auto; blast)
next
  case (15 K k chain x xs)
  then show ?case
    using erase_labeled(1) [of K chain x] erase_labeled(2) [of K chain xs]
      governed_labeled(1) [of V K k chain x] governed_labeled(2) [of V K k chain xs]
    by (auto; blast)
qed auto

lemma governed_disjoint:
  "j \<in> K \<Longrightarrow> k \<in> K \<Longrightarrow> j \<noteq> k \<Longrightarrow> distinct (labeled_tags n) \<Longrightarrow>
     Vj \<in> set (governed K j c n) \<Longrightarrow> Vk \<in> set (governed K k c n) \<Longrightarrow>
     set (labeled_tags_list Vj) \<inter> set (labeled_tags_list Vk) = {}"
  "j \<in> K \<Longrightarrow> k \<in> K \<Longrightarrow> j \<noteq> k \<Longrightarrow> distinct (labeled_tags_list xs) \<Longrightarrow>
     Vj \<in> set (governed_list K j c xs) \<Longrightarrow> Vk \<in> set (governed_list K k c xs) \<Longrightarrow>
     set (labeled_tags_list Vj) \<inter> set (labeled_tags_list Vk) = {}"
proof (induction K j c n and K j c xs rule: governed_governed_list.induct)
  case (5 K j chain obj prp)
  then show ?case
    using governed_labeled(1) [of Vj K j chain obj] governed_labeled(1) [of Vj K j chain prp]
      governed_labeled(1) [of Vk K k chain obj] governed_labeled(1) [of Vk K k chain prp]
    by (auto; blast)
next
  case (6 K j chain callee args)
  then show ?case
    using governed_labeled(1) [of Vj K j chain callee] governed_labeled(2) [of Vj K j chain args]
      governed_labeled(1) [of Vk K k chain callee] governed_labeled(2) [of Vk K k chain args]
    by (auto; blast)
next
  case (9 K j chain tag body)
  show ?case
  proof (cases "tag # chain = j")
    case True
    with "9.prems"(3,5,6) have vj: "Vj = erase_list K j body"
      and vk: "Vk \<in> set (governed_list K k j body)" by auto
    from governed_invisible(2) [OF "9.prems"(2) _ vk] "9.prems"(4) vj show ?thesis by auto
  next
    case False
    show ?thesis
    proof (cases "tag # chain = k")
      case True
      with "9.prems"(3,5,6) False have vk: "Vk = erase_list K k body"
        and vj: "Vj \<in> set (governed_list K j k body)" by auto
      from governed_invisible(2) [OF "9.prems"(1) _ vj] "9.prems"(4) vk show ?thesis by auto
    next
      case nk: False
      with "9.IH" [OF False "9.prems"(1,2,3)] "9.prems"(4,5,6) False show ?thesis by auto
    qed
  qed
next
  case (11 K j chain i init)
  then show ?case
    using governed_labeled(1) [of Vj K j chain i] governed_labeled(1) [of Vj K j chain init]
      governed_labeled(1) [of Vk K k chain i] governed_labeled(1) [of Vk K k chain init]
    by (auto; blast)
next
  case (15 K j chain x xs)
  then show ?case
    using governed_labeled(1) [of Vj K j chain x] governed_labeled(2) [of Vj K j chain xs]
      governed_labeled(1) [of Vk K k chain x] governed_labeled(2) [of Vk K k chain xs]
    by (auto; blast)
qed auto

lemma governed_deep:
  "length k \<le> length c \<Longrightarrow> governed K k c n = []"
  "length k \<le> length c \<Longrightarrow> governed_list K k c xs = []"
  by (induction K k c n and K k c xs rule: governed_governed_list.induct) auto

lemma governed_at_most_one:
  "distinct (block_tags n) \<Longrightarrow> length (governed K k c n) \<le> 1"
  "distinct (block_tags_list xs) \<Longrightarrow> length (governed_list K k c xs) \<le> 1"
proof (induction K k c n and K k c xs rule: governed_governed_list.induct)
  case (5 K k chain obj prp)
  have "governed K k chain obj = [] \<or> governed K k chain prp = []"
    using governed_nonempty(1) [of K k chain obj] governed_nonempty(1) [of K k chain prp] "5.prems"
    by auto
  with 5 show ?case by auto
next
  case (6 K k chain callee args)
  have "governed K k chain callee = [] \<or> governed_list K k chain args = []"
    using governed_nonempty(1) [of K k chain callee] governed_nonempty(2) [of K k chain args] "6.prems"
    by auto
  with 6 show ?case by auto
next
  case (11 K k chain i init)
  have "governed K k chain i = [] \<or> governed K k chain init = []"
    using governed_nonempty(1) [of K k chain i] governed_nonempty(1) [of K k chain init] "11.prems"
    by auto
  with 11 show ?case by auto
next
  case (15 K k chain x xs)
  have "governed K k chain x = [] \<or> governed_list K k chain xs = []"
    using governed_nonempty(1) [of K k chain x] governed_nonempty(2) [of K k chain xs] "15.prems"
    by auto
  with 15 show ?case by auto
qed auto

lemma declared_governed:
  "declared_in k c n \<noteq> [] \<Longrightarrow> length c < length k \<Longrightarrow> governed K k c n \<noteq> []"
  "declared_in_list k c xs \<noteq> [] \<Longrightarrow> length c < length k \<Longrightarrow> governed_list K k c xs \<noteq> []"
proof (induction k c n and k c xs rule: declared_in_declared_in_list.induct)
  case (9 block chain tag body)
  show ?case
  proof (cases "tag # chain = block")
    case True
    then show ?thesis by simp
  next
    case False
    have "length (tag # chain) < length block"
    proof (rule ccontr)
      assume "\<not> length (tag # chain) < length block"
      then have "length block \<le> length (tag # chain)" by simp
      from declared_in_short(2) [OF this, of body] False "9.prems"(1) show False by simp
    qed
    with "9.IH" "9.prems"(1) False show ?thesis by simp
  qed
qed (auto split: if_splits)

lemma governed_program_single:
  assumes "distinct (block_tags_list (body_of prog))" and "declared_in_list k [] (body_of prog) \<noteq> []"
  shows "\<exists>G. governed_program K k prog = [G]"
proof (cases "k = []")
  case True
  then show ?thesis by (simp add: governed_program_def)
next
  case False
  with declared_governed(2) [OF assms(2), of K] have "governed_list K k [] (body_of prog) \<noteq> []"
    by simp
  moreover from governed_at_most_one(2) [OF assms(1), of K k "[]"]
  have "length (governed_list K k [] (body_of prog)) \<le> 1" .
  ultimately show ?thesis
    using False by (cases "governed_list K k [] (body_of prog)") (auto simp: governed_program_def)
qed

text \<open>
  After step 1 the \<open>path\<close> of a namespace is the first provider statement of its block,
  one of the statements of the block, and its \<open>symbols\<close> map is empty.
\<close>

definition entry_ok :: "traitNamespaces \<Rightarrow> nat list \<Rightarrow> TraitNamespace \<Rightarrow> nat list \<Rightarrow> bool" where
  "entry_ok reg k ns' d \<longleftrightarrow>
     (case map_of reg k of
        Some ns \<Rightarrow> path ns' = path ns \<and> symbols ns' = symbols ns
      | None \<Rightarrow> path ns' = hd d \<and> symbols ns' = [])"

lemma entry_ok_compose:
  assumes "\<And>ns1. map_of reg1 k = Some ns1 \<Longrightarrow> entry_ok reg k ns1 d1"
    and "entry_ok reg1 k ns' d2"
    and "(map_of reg1 k = None) = (map_of reg k = None \<and> d1 = [])"
  shows "entry_ok reg k ns' (d1 @ d2)"
proof (cases "map_of reg1 k")
  case None
  with assms(2,3) show ?thesis by (simp add: entry_ok_def)
next
  case (Some ns1)
  from assms(1) [OF Some] assms(2,3) Some show ?thesis
    by (cases "map_of reg k") (auto simp: entry_ok_def)
qed

lemma map_of_None_keys: "(map_of reg k = None) = (k \<notin> fst ` set reg)"
  by (simp add: map_of_eq_None_iff)

lemma register_entry:
  assumes "register prog reg chain tag = Inr reg'" and "map_of reg' k = Some ns'"
  shows "entry_ok reg k ns' (if k = chain then [tag] else [])"
proof (cases "map_of reg chain")
  case None
  with assms(1) obtain ns ns1 where a: "new_TraitNamespace prog chain tag = Inr ns"
    and b: "addProvider prog ns tag = Inr ns1" and c: "reg' = AList.update chain ns1 reg"
    by (auto simp: register_def split: sum.splits)
  from a have "path ns = tag \<and> symbols ns = []"
    unfolding new_TraitNamespace_def by (auto dest!: addProvider_Inr)
  with addProvider_Inr [OF b] have n1: "path ns1 = tag \<and> symbols ns1 = []" by simp
  show ?thesis
  proof (cases "k = chain")
    case True
    with assms(2) c have "ns' = ns1" by (simp add: update_conv')
    with n1 None True show ?thesis by (simp add: entry_ok_def)
  next
    case False
    with assms(2) c have "map_of reg k = Some ns'" by (simp add: update_conv')
    then show ?thesis by (simp add: entry_ok_def)
  qed
next
  case (Some ns)
  with assms(1) obtain ns1 where b: "addProvider prog ns tag = Inr ns1" and c: "reg' = AList.update chain ns1 reg"
    by (auto simp: register_def split: sum.splits)
  from addProvider_Inr [OF b] have n1: "path ns1 = path ns \<and> symbols ns1 = symbols ns" by simp
  show ?thesis
  proof (cases "k = chain")
    case True
    with assms(2) c have "ns' = ns1" by (simp add: update_conv')
    with n1 Some True show ?thesis by (simp add: entry_ok_def)
  next
    case False
    with assms(2) c have "map_of reg k = Some ns'" by (simp add: update_conv')
    then show ?thesis by (simp add: entry_ok_def)
  qed
qed

lemma entry_ok_same: "map_of reg k = Some ns' \<Longrightarrow> entry_ok reg k ns' d"
  by (simp add: entry_ok_def)

lemma collect_entry:
  "collect prog chain inBlock n reg = Inr reg' \<Longrightarrow> map_of reg' k = Some ns' \<Longrightarrow>
     entry_ok reg k ns' (declared_in k chain n)"
  "collect_list prog chain inBlock xs reg = Inr reg' \<Longrightarrow> map_of reg' k = Some ns' \<Longrightarrow>
     entry_ok reg k ns' (declared_in_list k chain xs)"
proof (induction prog chain inBlock n reg and prog chain inBlock xs reg
        arbitrary: reg' ns' and reg' ns' rule: collect_collect_list.induct)
  case (5 prog chain inBlock obj prp reg)
  from "5.prems"(1) obtain reg1 where a: "collect prog chain False obj reg = Inr reg1"
    and b: "collect prog chain False prp reg1 = Inr reg'"
    by (auto split: sum.splits)
  have "entry_ok reg k ns' (declared_in k chain obj @ declared_in k chain prp)"
  proof (rule entry_ok_compose)
    fix ns1 assume "map_of reg1 k = Some ns1"
    from "5.IH"(1) [OF a this] show "entry_ok reg k ns1 (declared_in k chain obj)" .
  next
    from "5.IH"(2) [OF a b "5.prems"(2)] show "entry_ok reg1 k ns' (declared_in k chain prp)" .
  next
    from collect_keys(1) [OF a]
    show "(map_of reg1 k = None) = (map_of reg k = None \<and> declared_in k chain obj = [])"
      by (auto simp: map_of_None_keys)
  qed
  then show ?case by simp
next
  case (6 prog chain inBlock callee args reg)
  from "6.prems"(1) obtain reg1 where a: "collect prog chain False callee reg = Inr reg1"
    and b: "collect_list prog chain False args reg1 = Inr reg'"
    by (auto split: sum.splits)
  have "entry_ok reg k ns' (declared_in k chain callee @ declared_in_list k chain args)"
  proof (rule entry_ok_compose)
    fix ns1 assume "map_of reg1 k = Some ns1"
    from "6.IH"(1) [OF a this] show "entry_ok reg k ns1 (declared_in k chain callee)" .
  next
    from "6.IH"(2) [OF a b "6.prems"(2)] show "entry_ok reg1 k ns' (declared_in_list k chain args)" .
  next
    from collect_keys(1) [OF a]
    show "(map_of reg1 k = None) = (map_of reg k = None \<and> declared_in k chain callee = [])"
      by (auto simp: map_of_None_keys)
  qed
  then show ?case by simp
next
  case (8 prog chain inBlock tag label body reg)
  show ?case
  proof (cases "label = straitsProvider")
    case False
    with "8.prems"(1) have c: "collect prog chain False body reg = Inr reg'" by simp
    from "8.IH"(1) [OF False c "8.prems"(2)] False show ?thesis by simp
  next
    case True
    with "8.prems"(1) obtain reg1 where a: "register prog reg chain tag = Inr reg1"
      and b: "collect prog chain False body reg1 = Inr reg'" and ib: inBlock
      by (auto split: if_splits sum.splits)
    have "entry_ok reg k ns' ((if k = chain then [tag] else []) @ declared_in k chain body)"
    proof (rule entry_ok_compose)
      fix ns1 assume "map_of reg1 k = Some ns1"
      from register_entry [OF a this] show "entry_ok reg k ns1 (if k = chain then [tag] else [])" .
    next
      from "8.IH"(2) [OF _ _ a b "8.prems"(2)] True ib
      show "entry_ok reg1 k ns' (declared_in k chain body)" by simp
    next
      from register_keys [OF a]
      show "(map_of reg1 k = None) = (map_of reg k = None \<and> (if k = chain then [tag] else []) = [])"
        by (auto simp: map_of_None_keys)
    qed
    with True show ?thesis by (simp cong: if_cong) (auto simp: eq_commute)
  qed
next
  case (11 prog chain inBlock i init reg)
  from "11.prems"(1) obtain reg1 where a: "collect prog chain False i reg = Inr reg1"
    and b: "collect prog chain False init reg1 = Inr reg'"
    by (auto split: sum.splits)
  have "entry_ok reg k ns' (declared_in k chain i @ declared_in k chain init)"
  proof (rule entry_ok_compose)
    fix ns1 assume "map_of reg1 k = Some ns1"
    from "11.IH"(1) [OF a this] show "entry_ok reg k ns1 (declared_in k chain i)" .
  next
    from "11.IH"(2) [OF a b "11.prems"(2)] show "entry_ok reg1 k ns' (declared_in k chain init)" .
  next
    from collect_keys(1) [OF a]
    show "(map_of reg1 k = None) = (map_of reg k = None \<and> declared_in k chain i = [])"
      by (auto simp: map_of_None_keys)
  qed
  then show ?case by simp
next
  case (15 prog chain inBlock x xs reg)
  from "15.prems"(1) obtain reg1 where a: "collect prog chain inBlock x reg = Inr reg1"
    and b: "collect_list prog chain inBlock xs reg1 = Inr reg'"
    by (auto split: sum.splits)
  have "entry_ok reg k ns' (declared_in k chain x @ declared_in_list k chain xs)"
  proof (rule entry_ok_compose)
    fix ns1 assume "map_of reg1 k = Some ns1"
    from "15.IH"(1) [OF a this] show "entry_ok reg k ns1 (declared_in k chain x)" .
  next
    from "15.IH"(2) [OF a b "15.prems"(2)] show "entry_ok reg1 k ns' (declared_in_list k chain xs)" .
  next
    from collect_keys(1) [OF a]
    show "(map_of reg1 k = None) = (map_of reg k = None \<and> declared_in k chain x = [])"
      by (auto simp: map_of_None_keys)
  qed
  then show ?case by simp
qed (auto simp: entry_ok_same)

lemma collect_program_entry:
  assumes "collect_program prog = Inr reg" and "map_of reg k = Some ns"
  shows "path ns = hd (declared_in_list k [] (body_of prog)) \<and> symbols ns = []"
  using collect_entry(2) [OF assms(1) [unfolded collect_program_def] assms(2)]
  by (simp add: entry_ok_def)

lemma erase_list_map: "erase_list K c xs = map (erase K c) xs"
  by (induction xs) auto

lemma declared_top:
  "collect prog chain inBlock n reg = Inr reg' \<Longrightarrow> t \<in> set (declared_in k chain n) \<Longrightarrow>
     (k = chain \<and> inBlock \<and> is_statement t n) \<or>
     (\<exists>V \<in> set (governed K k chain n). \<exists>y \<in> set V. is_statement t y)"
  "collect_list prog chain inBlock xs reg = Inr reg' \<Longrightarrow> t \<in> set (declared_in_list k chain xs) \<Longrightarrow>
     (k = chain \<and> inBlock \<and> (\<exists>y \<in> set xs. is_statement t y)) \<or>
     (\<exists>V \<in> set (governed_list K k chain xs). \<exists>y \<in> set V. is_statement t y)"
proof (induction prog chain inBlock n reg and prog chain inBlock xs reg
        arbitrary: reg' and reg' rule: collect_collect_list.induct)
  case (5 prog chain inBlock obj prp reg)
  from "5.prems"(1) obtain reg1 where a: "collect prog chain False obj reg = Inr reg1"
    and b: "collect prog chain False prp reg1 = Inr reg'"
    by (auto split: sum.splits)
  from "5.prems"(2) "5.IH"(1) [OF a] "5.IH"(2) [OF a b] show ?case by auto
next
  case (6 prog chain inBlock callee args reg)
  from "6.prems"(1) obtain reg1 where a: "collect prog chain False callee reg = Inr reg1"
    and b: "collect_list prog chain False args reg1 = Inr reg'"
    by (auto split: sum.splits)
  from "6.prems"(2) "6.IH"(1) [OF a] "6.IH"(2) [OF a b] show ?case by auto
next
  case (8 prog chain inBlock tag label body reg)
  show ?case
  proof (cases "label = straitsProvider")
    case False
    with "8.prems"(1) have c: "collect prog chain False body reg = Inr reg'" by simp
    from "8.IH"(1) [OF False c] "8.prems"(2) False show ?thesis by auto
  next
    case True
    with "8.prems"(1) obtain reg1 where a: "register prog reg chain tag = Inr reg1"
      and b: "collect prog chain False body reg1 = Inr reg'" and ib: inBlock
      by (auto split: if_splits sum.splits)
    from "8.IH"(2) [OF _ _ a b] True ib "8.prems"(2) show ?thesis
      by (auto split: if_splits)
  qed
next
  case (9 prog chain inBlock tag body reg)
  from "9.prems" have c: "collect_list prog (tag # chain) True body reg = Inr reg'"
    and t: "t \<in> set (declared_in_list k (tag # chain) body)" by simp_all
  note ih = "9.IH" [OF c t]
  show ?case
  proof (cases "tag # chain = k")
    case True
    have "governed_list K k (tag # chain) body = []"
      using True by (simp add: governed_deep)
    with ih True obtain y where "y \<in> set body" and "is_statement t y" by auto
    then have "erase K k y \<in> set (erase_list K k body)" and "is_statement t (erase K k y)"
      by (simp_all add: erase_list_map is_statement_erase)
    with True show ?thesis by auto
  next
    case False
    with ih show ?thesis by auto
  qed
next
  case (11 prog chain inBlock i init reg)
  from "11.prems"(1) obtain reg1 where a: "collect prog chain False i reg = Inr reg1"
    and b: "collect prog chain False init reg1 = Inr reg'"
    by (auto split: sum.splits)
  from "11.prems"(2) "11.IH"(1) [OF a] "11.IH"(2) [OF a b] show ?case by auto
next
  case (15 prog chain inBlock x xs reg)
  from "15.prems"(1) obtain reg1 where a: "collect prog chain inBlock x reg = Inr reg1"
    and b: "collect_list prog chain inBlock xs reg1 = Inr reg'"
    by (auto split: sum.splits)
  from "15.prems"(2) "15.IH"(1) [OF a] "15.IH"(2) [OF a b] show ?case by auto
qed auto

lemma declared_top_program:
  assumes "collect_program prog = Inr reg" and "t \<in> set (declared_in_list k [] (body_of prog))"
  shows "\<exists>V \<in> set (governed_program K k prog). \<exists>y \<in> set V. is_statement t y"
proof (cases "k = []")
  case True
  from declared_top(2) [OF assms(1) [unfolded collect_program_def] assms(2), of K] True
  obtain y where "y \<in> set (body_of prog)" and "is_statement t y"
    by (auto simp: governed_deep)
  then have "erase K [] y \<in> set (erase_list K [] (body_of prog))" and "is_statement t (erase K [] y)"
    by (simp_all add: erase_list_map is_statement_erase)
  with True show ?thesis by (auto simp: governed_program_def)
next
  case False
  with declared_top(2) [OF assms(1) [unfolded collect_program_def] assms(2), of K]
  show ?thesis by (auto simp: governed_program_def)
qed

lemma declared_in_provider_statements:
  "set (declared_in k c n) \<subseteq> set (provider_statements n)"
  "set (declared_in_list k c xs) \<subseteq> set (provider_statements_list xs)"
  by (induction k c n and k c xs rule: declared_in_declared_in_list.induct) auto

lemma register_distinct:
  assumes "register prog reg chain tag = Inr reg'" and "distinct (map fst reg)"
  shows "distinct (map fst reg')"
proof -
  from assms(1) obtain ns' where "reg' = AList.update chain ns' reg"
    by (auto simp: register_def split: sum.splits option.splits)
  with assms(2) show ?thesis by (simp add: distinct_update)
qed

lemma collect_distinct:
  "collect prog chain inBlock n reg = Inr reg' \<Longrightarrow> distinct (map fst reg) \<Longrightarrow> distinct (map fst reg')"
  "collect_list prog chain inBlock xs reg = Inr reg' \<Longrightarrow> distinct (map fst reg) \<Longrightarrow> distinct (map fst reg')"
proof (induction prog chain inBlock n reg and prog chain inBlock xs reg
        arbitrary: reg' and reg' rule: collect_collect_list.induct)
  case (8 prog chain inBlock tag label body reg)
  show ?case
  proof (cases "label = straitsProvider")
    case False
    with 8 show ?thesis by simp
  next
    case True
    with "8.prems"(1) obtain reg1 where a: "register prog reg chain tag = Inr reg1"
      and b: "collect prog chain False body reg1 = Inr reg'" and ib: inBlock
      by (auto split: if_splits sum.splits)
    from "8.IH"(2) [OF _ _ a b register_distinct [OF a "8.prems"(2)]] True ib show ?thesis by simp
  qed
qed (auto split: sum.splits)

lemma inherit_all_distinct:
  "inherit_all prog reg blocks = Inr reg' \<Longrightarrow> distinct (map fst reg) \<Longrightarrow> distinct (map fst reg')"
proof (induction blocks arbitrary: reg)
  case Nil
  then show ?case by simp
next
  case (Cons block blocks)
  then show ?case
    by (cases "map_of reg block") (auto split: sum.splits simp: distinct_update)
qed

lemma rewrite_all_distinct:
  "rewrite_all gen blocks (prog, reg, uids) = Inr (prog', reg', uids') \<Longrightarrow>
   distinct (map fst reg) \<Longrightarrow> distinct (map fst reg')"
proof (induction blocks arbitrary: prog reg uids)
  case Nil
  then show ?case by simp
next
  case (Cons block blocks)
  then show ?case
    by (cases "map_of reg block") (auto split: sum.splits simp: distinct_update)
qed

lemma filter_single:
  assumes "distinct (map fst al)" and "map_of al k = Some v"
    and "\<And>j w. map_of al j = Some w \<Longrightarrow> j \<noteq> k \<Longrightarrow> \<not> Q w"
  shows "filter Q (map snd al) = (if Q v then [v] else [])"
  using assms
proof (induction al)
  case Nil
  then show ?case by simp
next
  case (Cons a al)
  obtain j w where a: "a = (j, w)" by (cases a)
  from Cons.prems(1) a have d: "distinct (map fst al)" and nj: "j \<notin> fst ` set al" by auto
  show ?case
  proof (cases "j = k")
    case True
    with Cons.prems(2) a have wv: "w = v" by simp
    have "filter Q (map snd al) = []"
    proof -
      have "\<not> Q w'" if "w' \<in> set (map snd al)" for w'
      proof -
        from that obtain j' where m: "(j', w') \<in> set al" by auto
        with d have m': "map_of al j' = Some w'" by simp
        from m nj True have "j' \<noteq> k" by force
        moreover from m' nj m a have "map_of (a # al) j' = Some w'" by force
        ultimately show ?thesis using Cons.prems(3) by blast
      qed
      then show ?thesis by (simp add: filter_empty_conv)
    qed
    with wv a show ?thesis by simp
  next
    case False
    with Cons.prems(2) a have m: "map_of al k = Some v" by simp
    have "\<not> Q w" using Cons.prems(3) [of j w] a False by simp
    moreover have "filter Q (map snd al) = (if Q v then [v] else [])"
    proof (rule Cons.IH [OF d m])
      fix j' w' assume m': "map_of al j' = Some w'" and "j' \<noteq> k"
      from m' have "(j', w') \<in> set al" by (rule map_of_SomeD)
      with nj have "j' \<noteq> j" by force
      with m' a have "map_of (a # al) j' = Some w'" by simp
      with \<open>j' \<noteq> k\<close> show "\<not> Q w'" using Cons.prems(3) by blast
    qed
    ultimately show ?thesis using a by simp
  qed
qed

text \<open>
  \<open>plain_providers\<close>: no provider statement and no block of a namespace stands inside a
  provider statement (by identity: inside a provider statement no labeled statement is
  one of the provider statements of the unit, and no block is the block of a namespace).
  \<^verbatim>\<open>finalize\<close> puts the expression node of each provider into the declaration, the
  node itself in the source and a copy in the model; the two agree on the units where
  such an expression holds no namespace, and the theorem below is about these.

  \<open>anchor_of k\<close> is the first provider statement of the block \<open>k\<close>, \<open>const_declaration\<close>
  the statements emitted for a \<^verbatim>\<open>symbols\<close> map (none when the map is empty, else one
  \<^verbatim>\<open>const\<close> declaration with one declarator per entry), and \<open>replace_statement p ds\<close>
  a statement list with the statement \<open>p\<close> replaced by the statements \<open>ds\<close>.
\<close>

definition plain_providers :: "program \<Rightarrow> bool" where
  "plain_providers prog \<longleftrightarrow>
     plain_list (set (provider_statements_list (body_of prog)))
       (hd ` (namespace_paths prog - {[]})) (body_of prog)"

definition anchor_of :: "nat list \<Rightarrow> program \<Rightarrow> nat" where
  "anchor_of k prog = hd (declared_in_list k [] (body_of prog))"

definition const_declaration :: "string \<Rightarrow> node list \<Rightarrow> (string \<times> string) list \<Rightarrow> node list" where
  "const_declaration g exprs syms =
     (if syms = [] then []
      else [VariableDeclaration ''const''
              (map (\<lambda>(name, ident).
                      VariableDeclarator (Identifier ident)
                        (CallExpression (Identifier g) (StringLiteral name # exprs)))
                   syms)])"

definition replace_statement :: "nat \<Rightarrow> node list \<Rightarrow> node list \<Rightarrow> node list" where
  "replace_statement p ds V = concat (map (\<lambda>y. if is_statement p y then ds else [y]) V)"

lemma replace_statement_edit: "replace_statement p ds V = edit_list p ds False V"
  by (induction V) (auto simp: replace_statement_def edit_list_def edit_def)

lemma governed_program_distinct:
  assumes "distinct (labeled_tags_list (body_of prog))" and "V \<in> set (governed_program K k prog)"
  shows "distinct (labeled_tags_list V)"
  using assms erase_distinct(2) [of "body_of prog" K "[]"]
    governed_distinct(2) [of "body_of prog" V K k "[]"]
  by (auto simp: governed_program_def split: if_splits)

lemma governed_program_disjoint:
  assumes "j \<in> K" and "k \<in> K" and "j \<noteq> k" and "distinct (labeled_tags_list (body_of prog))"
    and "Vj \<in> set (governed_program K j prog)" and "Vk \<in> set (governed_program K k prog)"
  shows "set (labeled_tags_list Vj) \<inter> set (labeled_tags_list Vk) = {}"
proof (cases "j = []")
  case True
  with assms(3,5,6) have "Vj = erase_list K [] (body_of prog)"
    and "Vk \<in> set (governed_list K k [] (body_of prog))"
    by (auto simp: governed_program_def)
  with governed_invisible(2) [OF assms(2,4), of Vk "[]"] show ?thesis by auto
next
  case False
  show ?thesis
  proof (cases "k = []")
    case True
    with assms(3,5,6) have "Vk = erase_list K [] (body_of prog)"
      and "Vj \<in> set (governed_list K j [] (body_of prog))"
      by (auto simp: governed_program_def)
    with governed_invisible(2) [OF assms(1,4), of Vj "[]"] show ?thesis by auto
  next
    case nk: False
    with False assms(5,6) have "Vj \<in> set (governed_list K j [] (body_of prog))"
      and "Vk \<in> set (governed_list K k [] (body_of prog))"
      by (auto simp: governed_program_def)
    from governed_disjoint(2) [OF assms(1,2,3,4) this] show ?thesis .
  qed
qed

lemma governed_program_unshift:
  "governed_program K k (unshiftContainer (GetSymbolFunction g) prog) =
     map (\<lambda>G. (if k = [] then [GetSymbolFunction g] else []) @ G) (governed_program K k prog)"
  by (simp add: governed_program_def unshiftContainer_def)

lemma is_statement_labeled_list: "y \<in> set V \<Longrightarrow> is_statement p y \<Longrightarrow> p \<in> set (labeled_tags_list V)"
proof (induction V)
  case Nil
  then show ?case by simp
next
  case (Cons a V)
  then show ?case using is_statement_tag [of p a] by auto
qed

lemma variableDeclarator_fun:
  "variableDeclarator g exprs =
     (\<lambda>(name, ident). VariableDeclarator (Identifier ident)
        (CallExpression (Identifier g) (StringLiteral name # exprs)))"
  by (auto simp: variableDeclarator_def fun_eq_iff)

text \<open>
  C6. Take a unit from the parser (\<open>well_formed\<close>) in which no namespace lies inside a
  provider statement, on which the pass succeeds, and one of its namespaces, the block
  \<open>k\<close>. Let \<open>G\<close> be its governed subtree in the unit: the statements of the block,
  nested namespaces left out; the first provider statement of the block is one of them.
  Then there is a map \<open>syms\<close> from trait names to identifiers, with one entry for each
  trait name requested in \<open>G\<close> and for no other name, such that the governed subtree
  of the namespace in the result is \<open>G\<close> with
  \<^item> every trait access \<^verbatim>\<open>obj._Straits.name\<close> replaced by \<^verbatim>\<open>obj[ident]\<close>, \<open>ident\<close> the
    one identifier that \<open>syms\<close> gives for \<open>name\<close>, at every occurrence of the name;
  \<^item> the first provider statement replaced by the emitted declaration: nothing when no
    name is requested, else one \<^verbatim>\<open>const\<close> declaration with exactly one declarator
    \<^verbatim>\<open>ident = getSymbol(name, ...providers)\<close> per entry of \<open>syms\<close>;
  \<^item> the literal texts patched, and the resolver function in front when the namespace
    is the program's.
\<close>

theorem one_identifier_per_trait_name:
  assumes pass: "pass gen prog = Inr out" and wf: "well_formed prog" and pp: "plain_providers prog"
    and kK: "k \<in> namespace_paths prog"
  shows "\<exists>G syms exprs.
           governed_program (namespace_paths prog) k prog = [G] \<and>
           (\<exists>y \<in> set G. is_statement (anchor_of k prog) y) \<and>
           distinct (map fst syms) \<and>
           set (map fst syms) = set (trait_names_list G) \<and>
           governed_program (namespace_paths prog) k out =
             [clean_list (replace_statement (anchor_of k prog)
                (const_declaration (gen [] [] ''getSymbol'') exprs syms)
                (resolve_list (\<lambda>name. the (map_of syms name))
                   ((if k = [] then [GetSymbolFunction (gen [] [] ''getSymbol'')] else []) @ G)))]"
  using pass
proof (cases rule: pass_Inr_cases)
  case no_providers
  from collect_keys(2) [OF no_providers(1) [unfolded collect_program_def]] kK
  show ?thesis by (simp add: namespace_paths_def)
next
  case (providers reg inherited prog2 rewritten uids)
  let ?g = "gen [] [] ''getSymbol''"
  let ?prog1 = "unshiftContainer (GetSymbolFunction ?g) prog"
  let ?K = "namespace_paths prog"
  let ?P = "set (provider_statements_list (body_of prog))"
  let ?B = "hd ` (?K - {[]})"
  let ?p = "anchor_of k prog"
  let ?nss = "map snd rewritten"
  let ?pre = "if k = [] then [GetSymbolFunction ?g] else []"
  from providers(1) have c: "collect_list prog [] True (body_of prog) [] = Inr reg"
    by (simp add: collect_program_def)
  from wf have db: "distinct (block_tags_list (body_of prog))"
    and dl: "distinct (labeled_tags_list (body_of prog))"
    by (simp_all add: well_formed_def)
  have K: "fst ` set reg = ?K"
    using collect_keys(2) [OF c] by (simp add: namespace_paths_def)
  have dreg: "distinct (map fst reg)"
    using collect_distinct(2) [OF c] by simp
  from inherit_all_outside [OF providers(3) [unfolded inherit_def]] K
  have ki: "fst ` set inherited = ?K" by simp
  have di: "distinct (map fst inherited)"
    by (rule inherit_all_distinct [OF providers(3) [unfolded inherit_def] dreg])
  from rewrite_all_outside [OF providers(4)] ki
  have kr: "fst ` set rewritten = ?K" by simp
  have dr: "distinct (map fst rewritten)"
    by (rule rewrite_all_distinct [OF providers(4) di])
  have own: "own_providers reg j = set (declared_in_list j [] (body_of prog))" for j
    using collect_own(2) [OF c, of j] by (simp add: own_providers_def)
  have ownP: "own_providers reg j \<subseteq> ?P" for j
    unfolding own using declared_in_provider_statements(2) by blast
  have anchorP: "anchor_of j prog \<in> ?P" if "j \<in> ?K" for j
  proof -
    from that have "declared_in_list j [] (body_of prog) \<noteq> []" by (simp add: namespace_paths_def)
    then have "anchor_of j prog \<in> set (declared_in_list j [] (body_of prog))"
      by (simp add: anchor_of_def)
    with declared_in_provider_statements(2) show ?thesis by blast
  qed
  have anchor_top: "\<exists>V \<in> set (governed_program ?K j prog). \<exists>y \<in> set V. is_statement (anchor_of j prog) y"
    if "j \<in> ?K" for j
  proof -
    from that have "declared_in_list j [] (body_of prog) \<noteq> []" by (simp add: namespace_paths_def)
    then have "anchor_of j prog \<in> set (declared_in_list j [] (body_of prog))"
      by (simp add: anchor_of_def)
    from declared_top_program [OF providers(1) this] show ?thesis .
  qed
  have inh: "\<exists>ns0. map_of reg j = Some ns0 \<and> path ns = path ns0 \<and> symbols ns = [] \<and>
               set (providers ns) \<subseteq> ?P"
    if "map_of inherited j = Some ns" for j ns
  proof -
    from inherit_all_static [OF providers(3) [unfolded inherit_def] that]
    obtain ns0 where m: "map_of reg j = Some ns0" and s: "path ns = path ns0" "symbols ns = symbols ns0"
      by blast
    from collect_program_entry [OF providers(1) m] have "symbols ns0 = []" by simp
    moreover from inherit_effective [OF providers(3) that]
    have "set (providers ns) = effective_providers reg j" .
    then have "set (providers ns) \<subseteq> ?P"
      using ownP by (auto simp: effective_providers_def)
    ultimately show ?thesis using m s by simp
  qed
  have entry: "path ns = anchor_of j prog \<and> set (providers ns) \<subseteq> ?P \<and> j \<in> ?K"
    if "map_of rewritten j = Some ns" for j ns
  proof -
    from rewrite_all_static [OF providers(4) that]
    obtain ns1 where m1: "map_of inherited j = Some ns1"
      and s1: "path ns = path ns1" "providers ns = providers ns1" by blast
    from inh [OF m1] obtain ns0 where m0: "map_of reg j = Some ns0"
      and s0: "path ns1 = path ns0" "set (providers ns1) \<subseteq> ?P" by blast
    from collect_program_entry [OF providers(1) m0] have "path ns0 = anchor_of j prog"
      by (simp add: anchor_of_def)
    moreover have "j \<in> ?K"
    proof -
      from that have "(j, ns) \<in> set rewritten" by (rule map_of_SomeD)
      then have "j \<in> fst ` set rewritten" by force
      with kr show ?thesis by simp
    qed
    ultimately show ?thesis using s1 s0 by simp
  qed
  from kK ki obtain nsi where mi: "map_of inherited k = Some nsi"
    by (metis map_of_eq_None_iff not_Some_eq)
  from inh [OF mi] have si: "symbols nsi = []" by blast
  from kK ki have kin: "k \<in> set (map fst inherited)" by simp
  from rewrite_all_governed [OF providers(4) di ki mi] kin
  obtain nsk where mk: "map_of rewritten k = Some nsk"
    and fol: "follows nsk nsi (concat (map trait_names_list (governed_program ?K k ?prog1)))"
    and res: "\<And>ident. agrees ident (symbols nsk) \<Longrightarrow>
        governed_program ?K k prog2 = map (resolve_list ident) (governed_program ?K k ?prog1)"
    by auto
  from governed_program_single [OF db, of k ?K] kK
  obtain G where G: "governed_program ?K k prog = [G]"
    by (auto simp: namespace_paths_def)
  from anchor_top [OF kK] G obtain y where y: "y \<in> set G" "is_statement ?p y" by auto
  have G1: "governed_program ?K k ?prog1 = [?pre @ G]"
    by (simp add: governed_program_unshift G)
  let ?syms = "symbols nsk"
  let ?ident = "\<lambda>name. the (map_of ?syms name)"
  have names: "trait_names_list (?pre @ G) = trait_names_list G" by simp
  from fol si have dsyms: "distinct (map fst ?syms)"
    and ksyms: "set (map fst ?syms) = set (trait_names_list G)"
    by (simp_all add: follows_def G1)
  have "agrees ?ident ?syms" by (simp add: agrees_def)
  from res [OF this] have G2: "governed_program ?K k prog2 = [resolve_list ?ident (?pre @ G)]"
    by (simp add: G1)
  let ?V2 = "resolve_list ?ident (?pre @ G)"
  have tags2: "set (labeled_tags_list ?V2) = set (labeled_tags_list G)"
    by (simp add: resolve_labeled_tags labeled_tags_list_append)
  have pl1: "plain_list ?P ?B (body_of ?prog1)"
    using pp by (simp add: plain_providers_def unshiftContainer_def)
  have pl2: "plain_list ?P ?B (body_of prog2)"
    by (rule rewrite_all_plain [OF providers(4) pl1])
  have nssP: "\<forall>ns \<in> set ?nss. path ns \<in> ?P \<and> set (providers ns) \<subseteq> ?P"
  proof
    fix ns assume "ns \<in> set ?nss"
    then obtain j where "(j, ns) \<in> set rewritten" by auto
    with dr have "map_of rewritten j = Some ns" by simp
    from entry [OF this] anchorP show "path ns \<in> ?P \<and> set (providers ns) \<subseteq> ?P" by auto
  qed
  have kB: "k = [] \<or> hd k \<in> ?B" using kK by auto
  have pP: "?p \<in> ?P" by (rule anchorP [OF kK])
  have dG: "distinct (labeled_tags_list G)"
    using governed_program_distinct [OF dl, of G ?K k] G by simp
  have "top_only ?p G" by (rule distinct_top_only [OF dG y])
  then have "top_only ?p (?pre @ G)" by (auto simp: top_only_def)
  then have top2: "top_only ?p ?V2" by (simp only: top_only_resolve)
  have pG: "?p \<in> set (labeled_tags_list G)" by (rule is_statement_labeled_list [OF y])
  have other: "anchor_of j prog \<notin> set (labeled_tags_list G)" if "j \<in> ?K" and "j \<noteq> k" for j
  proof -
    from anchor_top [OF that(1)] obtain Vj yj where Vj: "Vj \<in> set (governed_program ?K j prog)"
      and yj: "yj \<in> set Vj" "is_statement (anchor_of j prog) yj" by blast
    from is_statement_labeled_list [OF yj] have "anchor_of j prog \<in> set (labeled_tags_list Vj)" .
    moreover from governed_program_disjoint [OF that(1) kK that(2) dl Vj, of G] G
    have "set (labeled_tags_list Vj) \<inter> set (labeled_tags_list G) = {}" by simp
    ultimately show ?thesis by blast
  qed
  have vis2: "\<forall>ns \<in> set ?nss. path ns \<noteq> ?p \<longrightarrow> path ns \<notin> set (labeled_tags_list ?V2)"
  proof (intro ballI impI)
    fix ns assume "ns \<in> set ?nss" and np: "path ns \<noteq> ?p"
    then obtain j where "(j, ns) \<in> set rewritten" by auto
    with dr have m: "map_of rewritten j = Some ns" by simp
    from entry [OF m] have e: "path ns = anchor_of j prog" "j \<in> ?K" by simp_all
    with np have "j \<noteq> k" by auto
    from other [OF e(2) this] e(1) show "path ns \<notin> set (labeled_tags_list ?V2)"
      by (simp add: tags2)
  qed
  from foldl_finalize_governed [OF pl2 nssP kB pP G2 top2 vis2, of ?g]
  obtain ds where G3: "governed_program ?K k (foldl (finalize ?g) prog2 ?nss) = [edit_list ?p ds True ?V2]"
    and decl: "list_all2 (declares ?g) (filter (\<lambda>ns. path ns = ?p \<and> symbols ns \<noteq> []) ?nss) ds"
    and lds: "set (labeled_tags_list ds) \<inter> ?P = {}"
    and pl3: "plain_list ?P ?B (body_of (foldl (finalize ?g) prog2 ?nss))"
    by blast
  have "filter (\<lambda>ns. path ns = ?p \<and> symbols ns \<noteq> []) ?nss =
          (if path nsk = ?p \<and> symbols nsk \<noteq> [] then [nsk] else [])"
  proof (rule filter_single [OF dr mk])
    fix j w assume m: "map_of rewritten j = Some w" and jk: "j \<noteq> k"
    from entry [OF m] have e: "path w = anchor_of j prog" "j \<in> ?K" by simp_all
    from other [OF e(2) jk] pG e(1) have "path w \<noteq> ?p" by auto
    then show "\<not> (path w = ?p \<and> symbols w \<noteq> [])" by simp
  qed
  with entry [OF mk] have "filter (\<lambda>ns. path ns = ?p \<and> symbols ns \<noteq> []) ?nss =
          (if ?syms = [] then [] else [nsk])" by simp
  with decl obtain exprs where ds: "ds = const_declaration ?g exprs ?syms"
    by (cases "?syms = []")
       (auto simp: declares_def const_declaration_def list_all2_Cons1 variableDeclarator_fun)
  let ?V3 = "edit_list ?p ds True ?V2"
  from lds pP have nds: "?p \<notin> set (labeled_tags_list ds)" by auto
  have top3: "top_only ?p ?V3" by (rule top_only_edit [OF top2 nds])
  have vis3: "\<forall>ns \<in> set ?nss. path ns \<noteq> ?p \<longrightarrow> path ns \<notin> set (labeled_tags_list ?V3)"
  proof (intro ballI impI)
    fix ns assume ns: "ns \<in> set ?nss" and "path ns \<noteq> ?p"
    with vis2 have "path ns \<notin> set (labeled_tags_list ?V2)" by blast
    moreover from nssP ns lds have "path ns \<notin> set (labeled_tags_list ds)" by auto
    ultimately show "path ns \<notin> set (labeled_tags_list ?V3)"
      using labeled_tags_edit_list [of ?p ds True ?V2] by blast
  qed
  have nssP': "\<forall>ns \<in> set ?nss. path ns \<in> ?P" using nssP by simp
  have "nsk \<in> set ?nss" using mk by (force dest: map_of_SomeD)
  with entry [OF mk] have pin: "?p \<in> path ` set ?nss" by force
  from foldl_remove_governed [OF pl3 nssP' kB pP G3 top3 vis3] pin
  have G4: "governed_program ?K k (foldl remove (foldl (finalize ?g) prog2 ?nss) ?nss) =
              [edit_list ?p [] False ?V3]" by simp
  have "edit_list ?p [] False ?V3 = replace_statement ?p ds ?V2"
    by (simp add: edit_list_replace [OF not_statement_absent [OF nds]] replace_statement_edit)
  with G4 have "governed_program ?K k out = [clean_list (replace_statement ?p ds ?V2)]"
    unfolding providers(5) by (simp add: clean_governed_program)
  with G y dsyms ksyms ds show ?thesis by blast
qed

text \<open>
  \<^verbatim>\<open>use traits * from outer; a.*value; { b.*value; c.*size; } { use traits * from inner; d.*other; }\<close>:
  a namespace with a plain block and a namespace inside it, and its result.
\<close>

definition shared_names :: program where
  "shared_names = Program [
     LabeledStatement 1 ''_StraitsProvider'' (ExpressionStatement (Identifier ''outer'')),
     ExpressionStatement (MemberExpression (MemberExpression (Identifier ''a'') ''_Straits'') ''value''),
     BlockStatement 2 [
       ExpressionStatement (MemberExpression (MemberExpression (Identifier ''b'') ''_Straits'') ''value''),
       ExpressionStatement (MemberExpression (MemberExpression (Identifier ''c'') ''_Straits'') ''size'')],
     BlockStatement 3 [
       LabeledStatement 4 ''_StraitsProvider'' (ExpressionStatement (Identifier ''inner'')),
       ExpressionStatement (MemberExpression (MemberExpression (Identifier ''d'') ''_Straits'') ''other'')]]"

definition shared_names_result :: program where
  "shared_names_result = Program [
     GetSymbolFunction ''_getSymbol'',
     VariableDeclaration ''const''
       [VariableDeclarator (Identifier ''_value'')
          (CallExpression (Identifier ''_getSymbol'') [StringLiteral ''value'', Identifier ''outer'']),
        VariableDeclarator (Identifier ''_size'')
          (CallExpression (Identifier ''_getSymbol'') [StringLiteral ''size'', Identifier ''outer''])],
     ExpressionStatement (ComputedMemberExpression (Identifier ''a'') (Identifier ''_value'')),
     BlockStatement 2 [
       ExpressionStatement (ComputedMemberExpression (Identifier ''b'') (Identifier ''_value'')),
       ExpressionStatement (ComputedMemberExpression (Identifier ''c'') (Identifier ''_size''))],
     BlockStatement 3 [
       VariableDeclaration ''const''
         [VariableDeclarator (Identifier ''_other'')
            (CallExpression (Identifier ''_getSymbol'')
               [StringLiteral ''other'', Identifier ''inner'', Identifier ''outer''])],
       ExpressionStatement (ComputedMemberExpression (Identifier ''d'') (Identifier ''_other''))]]"

lemma pass_shared_names: "pass demo_uid shared_names = Inr shared_names_result"
  unfolding shared_names_result_def by code_simp

lemma shared_names_wf: "well_formed shared_names"
  by (simp add: well_formed_def shared_names_def)

lemma shared_names_plain: "plain_providers shared_names"
  by (simp add: plain_providers_def shared_names_def straitsProvider_def)

lemma shared_names_paths: "namespace_paths shared_names = {[], [3]}"
proof -
  have "collect_program shared_names =
     Inr [([], \<lparr>path = 1, blockPath = [], providers = [1], symbols = []\<rparr>),
          ([3], \<lparr>path = 4, blockPath = [3], providers = [4], symbols = []\<rparr>)]"
    by (simp add: eval_defs shared_names_def)
  from collect_keys(2) [OF this [unfolded collect_program_def]] show ?thesis
    by (auto simp: namespace_paths_def)
qed

lemma shared_names_governed:
  "governed_program {[], [3]} [] shared_names =
     [[LabeledStatement 1 ''_StraitsProvider'' (ExpressionStatement (Identifier ''outer'')),
       ExpressionStatement (MemberExpression (MemberExpression (Identifier ''a'') ''_Straits'') ''value''),
       BlockStatement 2 [
         ExpressionStatement (MemberExpression (MemberExpression (Identifier ''b'') ''_Straits'') ''value''),
         ExpressionStatement (MemberExpression (MemberExpression (Identifier ''c'') ''_Straits'') ''size'')],
       BlockStatement 3 []]]"
  by (simp add: governed_program_def shared_names_def)

lemma shared_names_governed_result:
  "governed_program {[], [3]} [] shared_names_result =
     [[GetSymbolFunction ''_getSymbol'',
       VariableDeclaration ''const''
         [VariableDeclarator (Identifier ''_value'')
            (CallExpression (Identifier ''_getSymbol'') [StringLiteral ''value'', Identifier ''outer'']),
          VariableDeclarator (Identifier ''_size'')
            (CallExpression (Identifier ''_getSymbol'') [StringLiteral ''size'', Identifier ''outer''])],
       ExpressionStatement (ComputedMemberExpression (Identifier ''a'') (Identifier ''_value'')),
       BlockStatement 2 [
         ExpressionStatement (ComputedMemberExpression (Identifier ''b'') (Identifier ''_value'')),
         ExpressionStatement (ComputedMemberExpression (Identifier ''c'') (Identifier ''_size''))],
       BlockStatement 3 []]]"
  by (simp add: governed_program_def shared_names_result_def)

lemma shared_names_trait_names:
  "trait_names_list
     [LabeledStatement 1 ''_StraitsProvider'' (ExpressionStatement (Identifier ''outer'')),
       ExpressionStatement (MemberExpression (MemberExpression (Identifier ''a'') ''_Straits'') ''value''),
       BlockStatement 2 [
         ExpressionStatement (MemberExpression (MemberExpression (Identifier ''b'') ''_Straits'') ''value''),
         ExpressionStatement (MemberExpression (MemberExpression (Identifier ''c'') ''_Straits'') ''size'')],
       BlockStatement 3 []] = [''value'', ''value'', ''size'']"
  by (simp add: straits_def)

theorem one_identifier_per_trait_name_witness:
  "pass demo_uid shared_names = Inr shared_names_result \<and>
   well_formed shared_names \<and> plain_providers shared_names \<and>
   [] \<in> namespace_paths shared_names \<and> [3] \<in> namespace_paths shared_names \<and>
   (\<exists>G syms exprs.
      governed_program (namespace_paths shared_names) [] shared_names = [G] \<and>
      (\<exists>y \<in> set G. is_statement (anchor_of [] shared_names) y) \<and>
      distinct (map fst syms) \<and>
      set (map fst syms) = set (trait_names_list G) \<and>
      governed_program (namespace_paths shared_names) [] shared_names_result =
        [clean_list (replace_statement (anchor_of [] shared_names)
           (const_declaration (demo_uid [] [] ''getSymbol'') exprs syms)
           (resolve_list (\<lambda>name. the (map_of syms name))
              ((if [] = ([] :: nat list) then [GetSymbolFunction (demo_uid [] [] ''getSymbol'')] else []) @ G)))]) \<and>
   (\<exists>G syms exprs.
      governed_program (namespace_paths shared_names) [3] shared_names = [G] \<and>
      (\<exists>y \<in> set G. is_statement (anchor_of [3] shared_names) y) \<and>
      distinct (map fst syms) \<and>
      set (map fst syms) = set (trait_names_list G) \<and>
      governed_program (namespace_paths shared_names) [3] shared_names_result =
        [clean_list (replace_statement (anchor_of [3] shared_names)
           (const_declaration (demo_uid [] [] ''getSymbol'') exprs syms)
           (resolve_list (\<lambda>name. the (map_of syms name))
              ((if [3] = ([] :: nat list) then [GetSymbolFunction (demo_uid [] [] ''getSymbol'')] else []) @ G)))]) \<and>
   namespace_paths shared_names = {[], [3]} \<and>
   governed_program {[], [3]} [] shared_names =
     [[LabeledStatement 1 ''_StraitsProvider'' (ExpressionStatement (Identifier ''outer'')),
       ExpressionStatement (MemberExpression (MemberExpression (Identifier ''a'') ''_Straits'') ''value''),
       BlockStatement 2 [
         ExpressionStatement (MemberExpression (MemberExpression (Identifier ''b'') ''_Straits'') ''value''),
         ExpressionStatement (MemberExpression (MemberExpression (Identifier ''c'') ''_Straits'') ''size'')],
       BlockStatement 3 []]] \<and>
   trait_names_list
     [LabeledStatement 1 ''_StraitsProvider'' (ExpressionStatement (Identifier ''outer'')),
       ExpressionStatement (MemberExpression (MemberExpression (Identifier ''a'') ''_Straits'') ''value''),
       BlockStatement 2 [
         ExpressionStatement (MemberExpression (MemberExpression (Identifier ''b'') ''_Straits'') ''value''),
         ExpressionStatement (MemberExpression (MemberExpression (Identifier ''c'') ''_Straits'') ''size'')],
       BlockStatement 3 []] = [''value'', ''value'', ''size''] \<and>
   governed_program {[], [3]} [] shared_names_result =
     [[GetSymbolFunction ''_getSymbol'',
       VariableDeclaration ''const''
         [VariableDeclarator (Identifier ''_value'')
            (CallExpression (Identifier ''_getSymbol'') [StringLiteral ''value'', Identifier ''outer'']),
          VariableDeclarator (Identifier ''_size'')
            (CallExpression (Identifier ''_getSymbol'') [StringLiteral ''size'', Identifier ''outer''])],
       ExpressionStatement (ComputedMemberExpression (Identifier ''a'') (Identifier ''_value'')),
       BlockStatement 2 [
         ExpressionStatement (ComputedMemberExpression (Identifier ''b'') (Identifier ''_value'')),
         ExpressionStatement (ComputedMemberExpression (Identifier ''c'') (Identifier ''_size''))],
       BlockStatement 3 []]]"
proof -
  have a: "[] \<in> namespace_paths shared_names" and b: "[3] \<in> namespace_paths shared_names"
    by (simp_all add: shared_names_paths)
  have "(pass demo_uid shared_names = Inr shared_names_result \<and>
         well_formed shared_names \<and> plain_providers shared_names \<and>
         [] \<in> namespace_paths shared_names \<and> [3] \<in> namespace_paths shared_names)"
    using pass_shared_names shared_names_wf shared_names_plain a b by blast
  moreover note one_identifier_per_trait_name [OF pass_shared_names shared_names_wf shared_names_plain a]
    one_identifier_per_trait_name [OF pass_shared_names shared_names_wf shared_names_plain b]
    shared_names_paths shared_names_governed shared_names_trait_names shared_names_governed_result
  ultimately show ?thesis by (intro conjI) blast+
qed

end
